theory Spec2Isabelle
  imports Complex_Main "HOL-Library.Word"
begin

section \<open>Strings and character classes\<close>

text \<open>
  A JavaScript string is a sequence of UTF-16 code units. The regular expressions of
  \<^verbatim>\<open>api/format.js\<close> are modelled by the character classes they name and by
  recursive functions that follow the matcher from left to right.
\<close>

type_synonym jschar = "16 word"
type_synonym jsstring = "jschar list"

text \<open>An ASCII literal as a JavaScript string.\<close>

definition js :: "string \<Rightarrow> jsstring" where
  "js s = map (\<lambda>c. of_nat (of_char c)) s"

text \<open>The class \<^verbatim>\<open>\w\<close>: \<^verbatim>\<open>[A-Za-z0-9_]\<close> (also under the \<^verbatim>\<open>u\<close> flag).\<close>

definition isWordChar :: "jschar \<Rightarrow> bool" where
  "isWordChar c \<longleftrightarrow>
     (0x41 \<le> c \<and> c \<le> 0x5A) \<or> (0x61 \<le> c \<and> c \<le> 0x7A) \<or> (0x30 \<le> c \<and> c \<le> 0x39) \<or> c = 0x5F"

text \<open>The class \<^verbatim>\<open>\s\<close>, which is also what \<^verbatim>\<open>trim()\<close> strips: white space and line terminators.\<close>

definition isSpaceChar :: "jschar \<Rightarrow> bool" where
  "isSpaceChar c \<longleftrightarrow>
     (0x09 \<le> c \<and> c \<le> 0x0D) \<or> c = 0x20 \<or> c = 0xA0 \<or> c = 0x1680 \<or>
     (0x2000 \<le> c \<and> c \<le> 0x200A) \<or> c = 0x2028 \<or> c = 0x2029 \<or> c = 0x202F \<or>
     c = 0x205F \<or> c = 0x3000 \<or> c = 0xFEFF"

text \<open>The class \<^verbatim>\<open>[aeiouy]\<close>.\<close>

definition isVowelLower :: "jschar \<Rightarrow> bool" where
  "isVowelLower c \<longleftrightarrow> c = 0x61 \<or> c = 0x65 \<or> c = 0x69 \<or> c = 0x6F \<or> c = 0x75 \<or> c = 0x79"

text \<open>The class \<^verbatim>\<open>[aeiouyAEIOUY]\<close>.\<close>

definition isVowel :: "jschar \<Rightarrow> bool" where
  "isVowel c \<longleftrightarrow> isVowelLower c \<or>
     c = 0x41 \<or> c = 0x45 \<or> c = 0x49 \<or> c = 0x4F \<or> c = 0x55 \<or> c = 0x59"

text \<open>The class \<^verbatim>\<open>[.!?]\<close>.\<close>

definition isTerminal :: "jschar \<Rightarrow> bool" where
  "isTerminal c \<longleftrightarrow> c = 0x2E \<or> c = 0x21 \<or> c = 0x3F"

definition comma :: jschar where
  "comma = 0x2C"

definition isHighSurrogate :: "jschar \<Rightarrow> bool" where
  "isHighSurrogate c \<longleftrightarrow> 0xD800 \<le> c \<and> c \<le> 0xDBFF"

definition isLowSurrogate :: "jschar \<Rightarrow> bool" where
  "isLowSurrogate c \<longleftrightarrow> 0xDC00 \<le> c \<and> c \<le> 0xDFFF"

section \<open>String and array primitives\<close>

text \<open>\<^verbatim>\<open>s.trim()\<close>.\<close>

definition trim :: "jsstring \<Rightarrow> jsstring" where
  "trim s = rev (dropWhile isSpaceChar (rev (dropWhile isSpaceChar s)))"

text \<open>\<^verbatim>\<open>xs.join(sep)\<close> on an array of strings.\<close>

fun join :: "jsstring \<Rightarrow> jsstring list \<Rightarrow> jsstring" where
  "join sep [] = []"
| "join sep [x] = x"
| "join sep (x # y # ys) = x @ sep @ join sep (y # ys)"

text \<open>
  \<^verbatim>\<open>xs.slice(start, end)\<close>: a negative index counts from the end, and both ends are
  clipped to the array.
\<close>

definition sliceArr :: "'a list \<Rightarrow> int \<Rightarrow> int \<Rightarrow> 'a list" where
  "sliceArr xs start fin =
     (let len = int (length xs);
          k = (if start < 0 then max (len + start) 0 else min start len);
          final = (if fin < 0 then max (len + fin) 0 else min fin len)
      in take (nat (final - k)) (drop (nat k) xs))"

text \<open>\<^verbatim>\<open>xs.slice(start)\<close>: the end defaults to the length.\<close>

definition sliceFrom :: "'a list \<Rightarrow> int \<Rightarrow> 'a list" where
  "sliceFrom xs start = sliceArr xs start (int (length xs))"

text \<open>
  \<^verbatim>\<open>s.match(/[C]+/g)\<close> for a character class \<open>C\<close>: the maximal runs of \<open>C\<close>, from
  left to right; the empty list stands for \<^verbatim>\<open>null\<close>.
\<close>

function matchRuns :: "(jschar \<Rightarrow> bool) \<Rightarrow> jsstring \<Rightarrow> jsstring list" where
  "matchRuns P s =
     (case dropWhile (\<lambda>c. \<not> P c) s of
        [] \<Rightarrow> []
      | c # cs \<Rightarrow> (c # takeWhile P cs) # matchRuns P (dropWhile P cs))"
  by pat_completeness auto
termination
proof (relation "measure (\<lambda>(P, s). length s)", goal_cases)
  case 1
  show ?case by simp
next
  case (2 P s c cs)
  have "length (dropWhile P cs) \<le> length cs"
    by (rule length_dropWhile_le)
  moreover have "length (c # cs) \<le> length s"
    unfolding 2 [symmetric] by (rule length_dropWhile_le)
  ultimately show ?case by simp
qed

declare matchRuns.simps [simp del]

text \<open>
  \<^verbatim>\<open>s.split(/[C]+/)\<close>: the pieces between the maximal runs of \<open>C\<close>, the empty
  pieces at both ends included.
\<close>

function splitRuns :: "(jschar \<Rightarrow> bool) \<Rightarrow> jsstring \<Rightarrow> jsstring list" where
  "splitRuns P s =
     (case dropWhile (\<lambda>c. \<not> P c) s of
        [] \<Rightarrow> [s]
      | c # cs \<Rightarrow> takeWhile (\<lambda>c. \<not> P c) s # splitRuns P (dropWhile P cs))"
  by pat_completeness auto
termination
proof (relation "measure (\<lambda>(P, s). length s)", goal_cases)
  case 1
  show ?case by simp
next
  case (2 P s c cs)
  have "length (dropWhile P cs) \<le> length cs"
    by (rule length_dropWhile_le)
  moreover have "length (c # cs) \<le> length s"
    unfolding 2 [symmetric] by (rule length_dropWhile_le)
  ultimately show ?case by simp
qed

declare splitRuns.simps [simp del]

text \<open>\<^verbatim>\<open>s.split(/,\s*/)\<close>: a delimiter is a comma with the white space after it.\<close>

function splitComma :: "jsstring \<Rightarrow> jsstring list" where
  "splitComma s =
     (case dropWhile (\<lambda>c. c \<noteq> comma) s of
        [] \<Rightarrow> [s]
      | c # cs \<Rightarrow> takeWhile (\<lambda>c. c \<noteq> comma) s # splitComma (dropWhile isSpaceChar cs))"
  by pat_completeness auto
termination
proof (relation "measure length", goal_cases)
  case 1
  show ?case by simp
next
  case (2 s c cs)
  have "length (dropWhile isSpaceChar cs) \<le> length cs"
    by (rule length_dropWhile_le)
  moreover have "length (c # cs) \<le> length s"
    unfolding 2 [symmetric] by (rule length_dropWhile_le)
  ultimately show ?case by simp
qed

declare splitComma.simps [simp del]

text \<open>
  \<^verbatim>\<open>s.split(/(?<=[.!?])\s+/)\<close>: a delimiter is a run of white space that directly
  follows a sentence terminal. \<open>cur\<close> is the piece read so far; it is empty only at the
  start of the text and right after a delimiter, where the look-behind fails.
\<close>

function splitSentencesFrom :: "jsstring \<Rightarrow> jsstring \<Rightarrow> jsstring list" where
  "splitSentencesFrom cur [] = [cur]"
| "splitSentencesFrom cur (c # cs) =
     (if isSpaceChar c \<and> cur \<noteq> [] \<and> isTerminal (last cur)
      then cur # splitSentencesFrom [] (dropWhile isSpaceChar cs)
      else splitSentencesFrom (cur @ [c]) cs)"
  by pat_completeness auto
termination
  by (relation "measure (\<lambda>(cur, s). length s)")
     (auto simp: less_Suc_eq_le intro: length_dropWhile_le)

definition splitSentences :: "jsstring \<Rightarrow> jsstring list" where
  "splitSentences s = splitSentencesFrom [] s"

text \<open>
  \<^verbatim>\<open>s.toLowerCase()\<close> on the ASCII range: \<open>A\<close> to \<open>Z\<close> become \<open>a\<close> to \<open>z\<close>. The
  case table of Unicode beyond ASCII is not modelled and other code units are kept; the
  only caller passes matches of \<^verbatim>\<open>\w+\<close>, which are ASCII.
\<close>

definition toLowerUnit :: "jschar \<Rightarrow> jschar" where
  "toLowerUnit c = (if 0x41 \<le> c \<and> c \<le> 0x5A then c + 0x20 else c)"

definition toLowerCase :: "jsstring \<Rightarrow> jsstring" where
  "toLowerCase s = map toLowerUnit s"

section \<open>Syllable counter and readability scorer\<close>

definition countSyllables :: "jsstring \<Rightarrow> nat" where
  "countSyllables word =
     (let matches = matchRuns isVowelLower (toLowerCase word)
      in if matches \<noteq> [] then length matches else 1)"

text \<open>\<^verbatim>\<open>Math.round\<close>: the nearest integer, halves upwards.\<close>

definition mathRound :: "real \<Rightarrow> int" where
  "mathRound x = \<lfloor>x + 1 / 2\<rfloor>"

text \<open>
  The counts of the scorer. The score is a JavaScript number; the model computes it in
  exact real arithmetic, without the rounding of IEEE doubles.
\<close>

definition numSentences :: "jsstring \<Rightarrow> nat" where
  "numSentences text = length (filter (\<lambda>s. trim s \<noteq> []) (splitRuns isTerminal text))"

definition numWords :: "jsstring \<Rightarrow> nat" where
  "numWords text = length (matchRuns isWordChar text)"

definition totalSyllables :: "jsstring \<Rightarrow> nat" where
  "totalSyllables text = foldl (\<lambda>s w. s + countSyllables w) 0 (matchRuns isWordChar text)"

definition fleschReadingEase :: "jsstring \<Rightarrow> real" where
  "fleschReadingEase text =
     (if numSentences text = 0 \<or> numWords text = 0 then 0
      else (let score = 206.835
                  - 1.015 * (real (numWords text) / real (numSentences text))
                  - 84.6 * (real (totalSyllables text) / real (numWords text))
            in real_of_int (mathRound (score * 100)) / 100))"

section \<open>Readability adjuster\<close>

definition space :: jsstring where
  "space = js '' ''"

text \<open>The parts of a sentence that is out of the band: at commas, or else two halves by words.\<close>

definition sentenceParts :: "jsstring \<Rightarrow> jsstring list" where
  "sentenceParts trimmed =
     (let parts = splitComma trimmed
      in if length parts \<le> 1
         then (let words = splitRuns isSpaceChar trimmed;
                   mid = int (length words) div 2
               in [join space (sliceArr words 0 mid), join space (sliceFrom words mid)])
         else parts)"

text \<open>The body of the loop over the sentences: what one sentence appends to \<^verbatim>\<open>newSentences\<close>.\<close>

definition adjustSentence :: "real \<Rightarrow> real \<Rightarrow> jsstring \<Rightarrow> jsstring list" where
  "adjustSentence lower upper sent =
     (let trimmed = trim sent
      in if trimmed = [] then []
         else (let sScore = fleschReadingEase trimmed
               in if sScore \<ge> lower \<and> sScore \<le> upper then [trimmed]
                  else filter (\<lambda>part. part \<noteq> []) (map trim (sentenceParts trimmed))))"

definition adjustReadability :: "jsstring \<Rightarrow> real \<Rightarrow> real \<Rightarrow> jsstring" where
  "adjustReadability text lower upper =
     (if text = [] then text
      else (let score = fleschReadingEase text
            in if score \<ge> lower \<and> score \<le> upper then text
               else join space (concat (map (adjustSentence lower upper) (splitSentences text)))))"

section \<open>Asymmetric Gaussian\<close>

definition sigmaR :: real where
  "sigmaR = 3.74"

definition sigmaL :: real where
  "sigmaL = 2.41"

definition gaussianAsym :: "real \<Rightarrow> real" where
  "gaussianAsym x =
     (let sigma = (if x \<ge> 0 then sigmaR else sigmaL)
      in exp (- (x * x) / (2 * sigma * sigma)))"

section \<open>Syllable tokenizer\<close>

datatype tokType = Sep | Syll

record token =
  ttype :: tokType
  ttext :: jsstring

text \<open>
  \<^verbatim>\<open>text.matchAll(/\w+|[^\w\s]|\s+/gu)\<close>: a run of word characters, or one code point
  that is neither a word character nor white space (a surrogate pair is one code point
  under the \<^verbatim>\<open>u\<close> flag), or a run of white space.
\<close>

function matchAllRe :: "jsstring \<Rightarrow> jsstring list" where
  "matchAllRe [] = []"
| "matchAllRe (c # cs) =
     (if isWordChar c then (c # takeWhile isWordChar cs) # matchAllRe (dropWhile isWordChar cs)
      else if \<not> isSpaceChar c then
        (case cs of
           [] \<Rightarrow> [[c]]
         | d # ds \<Rightarrow> if isHighSurrogate c \<and> isLowSurrogate d then [c, d] # matchAllRe ds
                     else [c] # matchAllRe cs)
      else (c # takeWhile isSpaceChar cs) # matchAllRe (dropWhile isSpaceChar cs))"
  by pat_completeness auto
termination
  by (relation "measure length") (auto simp: less_Suc_eq_le intro: length_dropWhile_le)

text \<open>
  \<^verbatim>\<open>tok.match(syllRe)\<close> with
  \<^verbatim>\<open>syllRe = /[^aeiouyAEIOUY]*[aeiouyAEIOUY]+(?:[^aeiouyAEIOUY]+(?=[aeiouyAEIOUY])|)/g\<close>.
  A match needs a vowel: it starts where the last one ended, takes the non-vowels up to
  the next vowel and the run of vowels, and then the following non-vowels only when a
  vowel comes after them. When no vowel is left the search ends and the rest of the
  string is in no match. The empty list stands for \<^verbatim>\<open>null\<close>.
\<close>

function syllMatches :: "jsstring \<Rightarrow> jsstring list" where
  "syllMatches s =
     (let onset = takeWhile (\<lambda>c. \<not> isVowel c) s;
          r1 = dropWhile (\<lambda>c. \<not> isVowel c) s
      in if r1 = [] then []
         else (let nucleus = takeWhile isVowel r1;
                   r2 = dropWhile isVowel r1;
                   coda = takeWhile (\<lambda>c. \<not> isVowel c) r2;
                   r3 = dropWhile (\<lambda>c. \<not> isVowel c) r2
               in if coda \<noteq> [] \<and> r3 \<noteq> [] then (onset @ nucleus @ coda) # syllMatches r3
                  else (onset @ nucleus) # syllMatches r2))"
  by pat_completeness auto
termination
proof -
  have shrink: "length (dropWhile isVowel (dropWhile (\<lambda>c. \<not> isVowel c) xs)) < length xs"
    if ne: "dropWhile (\<lambda>c. \<not> isVowel c) xs \<noteq> []" for xs
  proof -
    from ne obtain v vs where e: "dropWhile (\<lambda>c. \<not> isVowel c) xs = v # vs"
      by (cases "dropWhile (\<lambda>c. \<not> isVowel c) xs") simp_all
    have "isVowel v"
      using hd_dropWhile [OF ne] e by simp
    then have "length (dropWhile isVowel (v # vs)) \<le> length vs"
      by (simp add: length_dropWhile_le)
    moreover have "length (v # vs) \<le> length xs"
      unfolding e [symmetric] by (rule length_dropWhile_le)
    ultimately show ?thesis
      by (simp add: e)
  qed
  show ?thesis
  proof (relation "measure length", goal_cases)
    case 1
    show ?case by simp
  next
    case (2 s onset r1 nucleus r2 coda r3)
    have "length r3 \<le> length r2"
      unfolding 2 by (rule length_dropWhile_le)
    moreover have "length r2 < length s"
      using 2 shrink [of s] by simp
    ultimately show ?case by simp
  next
    case (3 s onset r1 nucleus r2 coda r3)
    then show ?case
      using shrink [of s] by simp
  qed
qed

declare syllMatches.simps [simp del]

text \<open>The test \<^verbatim>\<open>/^\s+$/.test(tok) || /[^\w\s]/.test(tok)\<close>.\<close>

definition isSepTok :: "jsstring \<Rightarrow> bool" where
  "isSepTok tok \<longleftrightarrow>
     (tok \<noteq> [] \<and> list_all isSpaceChar tok) \<or>
     list_ex (\<lambda>c. \<not> isWordChar c \<and> \<not> isSpaceChar c) tok"

definition tokensOf :: "jsstring \<Rightarrow> token list" where
  "tokensOf tok =
     (if isSepTok tok then [\<lparr>ttype = Sep, ttext = tok\<rparr>]
      else (let parts = (if syllMatches tok \<noteq> [] then syllMatches tok else [tok])
            in map (\<lambda>syl. \<lparr>ttype = Syll, ttext = syl\<rparr>) parts))"

definition tokenizeToSyllables :: "jsstring \<Rightarrow> token list" where
  "tokenizeToSyllables text = concat (map tokensOf (matchAllRe text))"

section \<open>Block sizes from a discrete Brownian walk\<close>

text \<open>
  \<^verbatim>\<open>randn()\<close> draws from \<^verbatim>\<open>Math.random\<close>. The model takes the samples as a
  sequence \<open>noise\<close>: \<open>noise k\<close> is what the call number \<open>k\<close> of one run returns (the
  iteration \<open>i\<close> of the loop makes the call number \<open>i - 2\<close>). The walk \<open>W\<close> is a real
  number. The only call passes the defaults 21, 4 and 12 for the base and the bounds, which
  are integers here, as the sizes are.
\<close>

function brownianLoop ::
  "(nat \<Rightarrow> real) \<Rightarrow> int \<Rightarrow> int \<Rightarrow> int \<Rightarrow> nat \<Rightarrow> nat \<Rightarrow> real \<Rightarrow> int list \<Rightarrow> int list" where
  "brownianLoop noise base minSize maxSize nBlocks i W sizes =
     (if i \<le> nBlocks
      then (let W' = W + noise (i - 2);
                raw = \<lfloor>real_of_int base - \<bar>W'\<bar>\<rfloor>;
                raw = (if raw < minSize then minSize else raw);
                raw = (if raw > maxSize then maxSize else raw)
            in brownianLoop noise base minSize maxSize nBlocks (i + 1) W' (sizes @ [raw]))
      else sizes)"
  by pat_completeness auto
termination
  by (relation "measure (\<lambda>(noise, base, minSize, maxSize, nBlocks, i, W, sizes). Suc nBlocks - i)")
     auto

declare brownianLoop.simps [simp del]

definition brownianBlockSizes :: "(nat \<Rightarrow> real) \<Rightarrow> nat \<Rightarrow> int \<Rightarrow> int \<Rightarrow> int \<Rightarrow> int list" where
  "brownianBlockSizes noise nBlocks base minSize maxSize =
     brownianLoop noise base minSize maxSize nBlocks 2 0 [base]"

text \<open>\<^verbatim>\<open>Math.ceil(total / 2)\<close>.\<close>

definition nBlocksOf :: "nat \<Rightarrow> nat" where
  "nBlocksOf n = nat \<lceil>real n / 2\<rceil>"

section \<open>Emphasis\<close>

definition marker :: jsstring where
  "marker = js ''**''"

definition wrapEmph :: "token \<Rightarrow> token" where
  "wrapEmph t = t\<lparr>ttext := marker @ ttext t @ marker\<rparr>"

text \<open>The test \<^verbatim>\<open>gaussianAsym(pos - center) > 0.8\<close>, on the integer \<open>d = pos - center\<close>.\<close>

definition emphasized :: "int \<Rightarrow> bool" where
  "emphasized d \<longleftrightarrow> gaussianAsym (real_of_int d) > 0.8"

text \<open>
  The inner \<^verbatim>\<open>block.forEach\<close>: the token at index \<open>tok_i\<close> of the array is updated in
  place. Every \<open>tok_i\<close> comes from \<open>syllIdxs\<close> and is an index of the array.
\<close>

definition emphBlock :: "token list \<Rightarrow> nat list \<Rightarrow> token list" where
  "emphBlock tokens block =
     (let center = length block div 2
      in fold (\<lambda>(tok_i, pos) toks.
                 if emphasized (int pos - int center)
                 then toks[tok_i := wrapEmph (toks ! tok_i)] else toks)
           (zip block [0..<length block]) tokens)"

text \<open>One step of \<^verbatim>\<open>sizes.forEach\<close>, on the state \<open>(idx, tokens)\<close>.\<close>

definition emphStep :: "nat list \<Rightarrow> int \<Rightarrow> int \<times> token list \<Rightarrow> int \<times> token list" where
  "emphStep syllIdxs sz st =
     (case st of (idx, tokens) \<Rightarrow>
        (idx + sz, emphBlock tokens (sliceArr syllIdxs idx (idx + sz))))"

definition syllIdxsOf :: "token list \<Rightarrow> nat list" where
  "syllIdxsOf tokens = filter (\<lambda>i. ttype (tokens ! i) = Syll) [0..<length tokens]"

text \<open>The token array when the loops of \<^verbatim>\<open>formatSyllables\<close> are over.\<close>

definition emphasize :: "(nat \<Rightarrow> real) \<Rightarrow> token list \<Rightarrow> token list" where
  "emphasize noise tokens =
     (let syllIdxs = syllIdxsOf tokens;
          totalSyll = length syllIdxs;
          nBlocks = nBlocksOf totalSyll;
          sizes = brownianBlockSizes noise nBlocks 21 4 12
      in snd (fold (emphStep syllIdxs) sizes (0, tokens)))"

definition formatSyllables :: "(nat \<Rightarrow> real) \<Rightarrow> token list \<Rightarrow> jsstring" where
  "formatSyllables noise tokens = concat (map ttext (emphasize noise tokens))"

section \<open>The pipeline\<close>

definition processText :: "(nat \<Rightarrow> real) \<Rightarrow> jsstring \<Rightarrow> jsstring" where
  "processText noise text =
     (let adjusted = adjustReadability text 74 82;
          tokens = tokenizeToSyllables adjusted
      in formatSyllables noise tokens)"

section \<open>Unicode bold\<close>

text \<open>\<^verbatim>\<open>[...s]\<close>: the string by code points; a surrogate pair is one element.\<close>

fun spread :: "jsstring \<Rightarrow> jsstring list" where
  "spread [] = []"
| "spread [c] = [[c]]"
| "spread (c # d # cs) =
     (if isHighSurrogate c \<and> isLowSurrogate d then [c, d] # spread cs
      else [c] # spread (d # cs))"

text \<open>
  \<^verbatim>\<open>ch.codePointAt(0)\<close> on an element of \<^verbatim>\<open>[...s]\<close>, which is never empty (the
  first equation is there for totality only).
\<close>

fun codePointAt0 :: "jsstring \<Rightarrow> nat" where
  "codePointAt0 [] = 0"
| "codePointAt0 [c] = unat c"
| "codePointAt0 (c # d # cs) =
     (if isHighSurrogate c \<and> isLowSurrogate d
      then 0x10000 + (unat c - 0xD800) * 0x400 + (unat d - 0xDC00)
      else unat c)"

text \<open>
  \<^verbatim>\<open>String.fromCodePoint(cp)\<close>: one code unit up to \<open>0xFFFF\<close>, a surrogate pair up to
  \<open>0x10FFFF\<close>, and a \<^verbatim>\<open>RangeError\<close> beyond (\<open>None\<close>).
\<close>

definition fromCodePoint :: "nat \<Rightarrow> jsstring option" where
  "fromCodePoint cp =
     (if cp < 0x10000 then Some [of_nat cp]
      else if cp \<le> 0x10FFFF
      then Some [of_nat (0xD800 + (cp - 0x10000) div 0x400),
                 of_nat (0xDC00 + (cp - 0x10000) mod 0x400)]
      else None)"

definition boldChar :: "jsstring \<Rightarrow> jsstring option" where
  "boldChar ch =
     (let code = codePointAt0 ch
      in if code \<ge> 65 \<and> code \<le> 90 then fromCodePoint (0x1D400 + (code - 65))
         else if code \<ge> 97 \<and> code \<le> 122 then fromCodePoint (0x1D41A + (code - 97))
         else if code \<ge> 48 \<and> code \<le> 57 then fromCodePoint (0x1D7CE + (code - 48))
         else Some ch)"

text \<open>The result is \<open>None\<close> when a call of \<^verbatim>\<open>String.fromCodePoint\<close> throws.\<close>

definition toUnicodeBold :: "jsstring \<Rightarrow> jsstring option" where
  "toUnicodeBold s = map_option concat (those (map boldChar (spread s)))"

section \<open>Markup to hypertext\<close>

definition star :: jschar where
  "star = 0x2A"

text \<open>What \<^verbatim>\<open>.\<close> does not match: the line terminators.\<close>

definition isLineTerminator :: "jschar \<Rightarrow> bool" where
  "isLineTerminator c \<longleftrightarrow> c = 0x0A \<or> c = 0x0D \<or> c = 0x2028 \<or> c = 0x2029"

text \<open>
  The rest \<^verbatim>\<open>(.*?)\*\*\<close> of the pattern of \<^verbatim>\<open>toHtml\<close>, right after an opening
  marker: the group is the shortest run of characters other than line terminators that
  a closing marker follows. The result is the group and the text after the closing
  marker, or \<open>None\<close> when there is no match.
\<close>

fun lazyGroup :: "jsstring \<Rightarrow> (jsstring \<times> jsstring) option" where
  "lazyGroup (c # d # cs) =
     (if c = star \<and> d = star then Some ([], cs)
      else if isLineTerminator c then None
      else map_option (\<lambda>(g, r). (c # g, r)) (lazyGroup (d # cs)))"
| "lazyGroup cs = None"

text \<open>A match of \<^verbatim>\<open>/\*\*(.*?)\*\*/\<close> at the start of the string.\<close>

definition matchStrong :: "jsstring \<Rightarrow> (jsstring \<times> jsstring) option" where
  "matchStrong s =
     (case s of
        c # d # cs \<Rightarrow> if c = star \<and> d = star then lazyGroup cs else None
      | _ \<Rightarrow> None)"

lemma lazyGroup_shorter: "lazyGroup s = Some (g, r) \<Longrightarrow> length r < length s"
proof (induction s arbitrary: g rule: lazyGroup.induct)
  case (1 c d cs)
  show ?case
  proof (cases "c = star \<and> d = star")
    case True
    with 1(2) show ?thesis by simp
  next
    case False
    with 1(2) have nl: "\<not> isLineTerminator c"
      by (simp split: if_splits)
    with False 1(2) obtain g' where "lazyGroup (d # cs) = Some (g', r)"
      by (auto split: if_splits)
    then have "length r < length (d # cs)"
      by (rule "1.IH" [OF False nl])
    then show ?thesis by simp
  qed
qed simp_all

lemma matchStrong_shorter: "matchStrong s = Some (g, r) \<Longrightarrow> length r < length s"
  by (auto simp: matchStrong_def split: list.splits if_splits dest: lazyGroup_shorter)

text \<open>
  \<^verbatim>\<open>markdown.replace(/\*\*(.*?)\*\*/g, "<strong>$1</strong>")\<close>: the matches are taken
  from left to right, each search starting where the last match ended.
\<close>

function toHtml :: "jsstring \<Rightarrow> jsstring" where
  "toHtml [] = []"
| "toHtml (c # cs) =
     (case matchStrong (c # cs) of
        Some (g, r) \<Rightarrow> js ''<strong>'' @ g @ js ''</strong>'' @ toHtml r
      | None \<Rightarrow> c # toHtml cs)"
  by pat_completeness auto
termination
  by (relation "measure length") (auto dest: matchStrong_shorter)

declare toHtml.simps [simp del]

text \<open>
  The marked spans of a string: the groups of the same matches, in order, which are what
  \<^verbatim>\<open>toHtml\<close> puts between the tags.
\<close>

function markedSpans :: "jsstring \<Rightarrow> jsstring list" where
  "markedSpans [] = []"
| "markedSpans (c # cs) =
     (case matchStrong (c # cs) of
        Some (g, r) \<Rightarrow> g # markedSpans r
      | None \<Rightarrow> markedSpans cs)"
  by pat_completeness auto
termination
  by (relation "measure length") (auto dest: matchStrong_shorter)

declare markedSpans.simps [simp del]

section \<open>A fixed noise sequence\<close>

text \<open>The noise sequence whose samples are all zero, for the concrete instances below.\<close>

definition noNoise :: "nat \<Rightarrow> real" where
  "noNoise k = 0"

section \<open>The spec's count of vowel runs\<close>

text \<open>
  In the words of the spec: the number of maximal contiguous runs of vowel characters
  (\<open>a, e, i, o, u, y\<close> in either case) of a word. A run is counted at its first
  position: a vowel that is the first character or follows a non-vowel.
\<close>

definition vowelRuns :: "jsstring \<Rightarrow> nat" where
  "vowelRuns word =
     length (filter (\<lambda>i. isVowel (word ! i) \<and> (i = 0 \<or> \<not> isVowel (word ! (i - 1))))
               [0..<length word])"

text \<open>
  The same count along the string, for the proofs: \<open>b\<close> tells whether the character
  before is in the class.
\<close>

fun runsFrom :: "(jschar \<Rightarrow> bool) \<Rightarrow> bool \<Rightarrow> jsstring \<Rightarrow> nat" where
  "runsFrom P b [] = 0"
| "runsFrom P b (c # cs) = (if P c \<and> \<not> b then 1 else 0) + runsFrom P (P c) cs"

section \<open>Code points and the spec's bold table\<close>

text \<open>The code points of a string, read as UTF-16.\<close>

definition codePoints :: "jsstring \<Rightarrow> nat list" where
  "codePoints s = map codePointAt0 (spread s)"

text \<open>
  In the words of the spec: a Latin capital letter, small letter or decimal digit goes
  to its mathematical-bold code point (\<open>U+1D400\<close> for \<open>A\<close>, \<open>U+1D41A\<close> for \<open>a\<close>,
  \<open>U+1D7CE\<close> for \<open>0\<close>, the rest of each range in order), every other code point to
  itself.
\<close>

definition boldCodePoint :: "nat \<Rightarrow> nat" where
  "boldCodePoint cp =
     (if 0x41 \<le> cp \<and> cp \<le> 0x5A then 0x1D400 + (cp - 0x41)
      else if 0x61 \<le> cp \<and> cp \<le> 0x7A then 0x1D41A + (cp - 0x61)
      else if 0x30 \<le> cp \<and> cp \<le> 0x39 then 0x1D7CE + (cp - 0x30)
      else cp)"

text \<open>The code units that stand for one code unit of the input, for the proofs.\<close>

definition boldUnits :: "jschar \<Rightarrow> jsstring" where
  "boldUnits c =
     (if boldCodePoint (unat c) = unat c then [c]
      else [0xD835, of_nat (0xDC00 + (boldCodePoint (unat c) - 0x1D400))])"

section \<open>Auxiliary notions for the proofs\<close>

text \<open>A second noise sequence, constant at 5.5.\<close>

definition stepNoise :: "nat \<Rightarrow> real" where
  "stepNoise k = 11 / 2"

text \<open>A string that \<^verbatim>\<open>trim()\<close> leaves alone: not empty, no white space at either end.\<close>

definition isTrimmed :: "jsstring \<Rightarrow> bool" where
  "isTrimmed s \<longleftrightarrow> s \<noteq> [] \<and> \<not> isSpaceChar (hd s) \<and> \<not> isSpaceChar (last s)"

text \<open>
  The invariant of the emphasis loops: the array \<open>cur\<close> is the array \<open>orig\<close> with some
  tokens wrapped once, and a token whose index is outside \<open>D\<close> is as it was.
\<close>

definition markedFrom :: "token list \<Rightarrow> token list \<Rightarrow> nat set \<Rightarrow> bool" where
  "markedFrom orig cur D \<longleftrightarrow>
     length cur = length orig \<and>
     (\<forall>i<length orig. (i \<notin> D \<longrightarrow> cur ! i = orig ! i) \<and>
        (cur ! i = orig ! i \<or> cur ! i = wrapEmph (orig ! i)))"

section \<open>Evaluation of the character classes and of the scorer\<close>

lemmas charClasses =
  isWordChar_def isSpaceChar_def isVowel_def isVowelLower_def isTerminal_def comma_def
  isHighSurrogate_def isLowSurrogate_def

lemmas matcherSimps =
  matchRuns.simps splitRuns.simps splitComma.simps syllMatches.simps

lemmas scorerDefs =
  fleschReadingEase_def numSentences_def numWords_def totalSyllables_def
  countSyllables_def toLowerCase_def toLowerUnit_def mathRound_def trim_def

section \<open>Scorer degeneracy\<close>

text \<open>
  C6. For every text whose sentence count or word count is zero, \<open>fleschReadingEase\<close>
  returns exactly 0; in particular the score of the empty string and the score of
  \<^verbatim>\<open>"..."\<close> are 0.
\<close>

theorem fleschReadingEase_degenerate:
  "(numSentences text = 0 \<or> numWords text = 0 \<longrightarrow> fleschReadingEase text = 0) \<and>
   fleschReadingEase (js '''') = 0 \<and> fleschReadingEase (js ''...'') = 0"
  by (simp add: fleschReadingEase_def numSentences_def numWords_def js_def trim_def charClasses
      matcherSimps)

text \<open>The text \<^verbatim>\<open>"-"\<close> is one sentence without a word.\<close>

theorem fleschReadingEase_degenerate_witness:
  "numSentences (js ''-'') \<noteq> 0 \<and> numWords (js ''-'') = 0 \<and> fleschReadingEase (js ''-'') = 0"
  using fleschReadingEase_degenerate [of "js ''-''"]
  by (simp add: numSentences_def numWords_def js_def trim_def charClasses matcherSimps)

section \<open>The adjuster keeps a text that is in the band\<close>

text \<open>
  C3. For every text whose whole-text readability score lies within \<open>[lower, upper]\<close>,
  and for the empty string, \<open>adjustReadability\<close> returns the input text unchanged.
\<close>

theorem adjustReadability_unchanged:
  "text = [] \<or> (lower \<le> fleschReadingEase text \<and> fleschReadingEase text \<le> upper) \<Longrightarrow>
   adjustReadability text lower upper = text"
  by (auto simp: adjustReadability_def)

lemma score_happy: "fleschReadingEase (js ''Happy people read well.'') = 75.88"
  by (simp add: js_def scorerDefs charClasses matcherSimps)

theorem adjustReadability_unchanged_witness:
  "74 \<le> fleschReadingEase (js ''Happy people read well.'') \<and>
   fleschReadingEase (js ''Happy people read well.'') \<le> 82 \<and>
   adjustReadability (js ''Happy people read well.'') 74 82 = js ''Happy people read well.'' \<and>
   adjustReadability (js '''') 74 82 = js ''''"
  using adjustReadability_unchanged [of "js ''Happy people read well.''" 74 82]
    adjustReadability_unchanged [of "js ''''" 74 82]
  by (simp add: score_happy) (simp add: js_def)

section \<open>The pipeline on the empty string\<close>

text \<open>
  C9. For the empty string and every sequence of noise samples, \<open>processText\<close> returns
  the empty string.
\<close>

theorem processText_empty: "processText noise (js '''') = js ''''"
  by (simp add: processText_def adjustReadability_def tokenizeToSyllables_def formatSyllables_def
      emphasize_def syllIdxsOf_def nBlocksOf_def brownianBlockSizes_def brownianLoop.simps
      emphStep_def emphBlock_def sliceArr_def js_def)

section \<open>The tokenizer loses the consonants that end a word\<close>

text \<open>
  C1 asks that the token texts of \<open>tokenizeToSyllables\<close>, concatenated in order, are the
  input. On \<^verbatim>\<open>"world"\<close> the only match of the syllable pattern is \<^verbatim>\<open>"wo"\<close>: the
  consonants \<^verbatim>\<open>"rld"\<close> are followed by no vowel, so they are in no match and in no
  token.
\<close>

theorem tokenizeToSyllables_drops_coda:
  "concat (map ttext (tokenizeToSyllables (js ''world''))) = js ''wo'' \<and>
   concat (map ttext (tokenizeToSyllables (js ''world''))) \<noteq> js ''world''"
  by (simp add: js_def tokenizeToSyllables_def tokensOf_def isSepTok_def charClasses matcherSimps)

section \<open>Syllable counter\<close>

lemma runStarts_runsFrom:
  "length (filter (\<lambda>i. P (w ! i) \<and> (if i = 0 then \<not> b else \<not> P (w ! (i - 1)))) [0..<length w])
   = runsFrom P b w"
proof (induction w arbitrary: b)
  case Nil
  show ?case by simp
next
  case (Cons c cs)
  have upt: "[0..<length (c # cs)] = 0 # map Suc [0..<length cs]"
    by (simp add: upt_conv_Cons map_Suc_upt del: upt_Suc)
  have "filter (\<lambda>i. P ((c # cs) ! Suc i) \<and> \<not> P ((c # cs) ! i)) [0..<length cs]
      = filter (\<lambda>i. P (cs ! i) \<and> (if i = 0 then \<not> P c else \<not> P (cs ! (i - 1)))) [0..<length cs]"
    by (rule filter_cong) (auto simp: nth_Cons')
  then show ?case
    unfolding upt using Cons.IH [of "P c"]
    by (simp add: filter_map comp_def)
qed

lemma runsFrom_dropWhile_not: "runsFrom P False (dropWhile (\<lambda>c. \<not> P c) s) = runsFrom P False s"
  by (induction s) auto

lemma runsFrom_dropWhile: "runsFrom P True (dropWhile P s) = runsFrom P True s"
  by (induction s) auto

lemma runsFrom_after_run: "runsFrom P False (dropWhile P s) = runsFrom P True s"
  by (induction s) auto

lemma length_matchRuns: "length (matchRuns P s) = runsFrom P False s"
proof (induction P s rule: matchRuns.induct)
  case (1 P s)
  show ?case
  proof (cases "dropWhile (\<lambda>c. \<not> P c) s")
    case Nil
    have "runsFrom P False s = 0"
      using runsFrom_dropWhile_not [of P s, unfolded Nil] by simp
    moreover have "matchRuns P s = []"
      by (subst matchRuns.simps) (simp only: Nil list.case)
    ultimately show ?thesis
      by simp
  next
    case (Cons c cs)
    then have "P c"
      using hd_dropWhile [of "\<lambda>c. \<not> P c" s] by simp
    have "runsFrom P False s = runsFrom P False (c # cs)"
      using runsFrom_dropWhile_not [of P s] Cons by simp
    also have "\<dots> = Suc (runsFrom P True cs)"
      using \<open>P c\<close> by simp
    also have "\<dots> = Suc (length (matchRuns P (dropWhile P cs)))"
      using 1 [OF Cons] by (simp add: runsFrom_after_run)
    finally have "runsFrom P False s = Suc (length (matchRuns P (dropWhile P cs)))" .
    moreover have "matchRuns P s = (c # takeWhile P cs) # matchRuns P (dropWhile P cs)"
      by (subst matchRuns.simps) (simp only: Cons list.case)
    ultimately show ?thesis
      by simp
  qed
qed

lemma runsFrom_map: "runsFrom P b (map f s) = runsFrom (\<lambda>c. P (f c)) b s"
  by (induction s arbitrary: b) auto

lemma isVowelLower_toLowerUnit: "isVowelLower (toLowerUnit c) = isVowel c"
  by (auto simp: isVowelLower_def isVowel_def toLowerUnit_def)

lemma length_vowel_matches: "length (matchRuns isVowelLower (toLowerCase word)) = vowelRuns word"
proof -
  have "(\<lambda>i. isVowel (word ! i) \<and> (i = 0 \<or> \<not> isVowel (word ! (i - 1)))) =
      (\<lambda>i. isVowel (word ! i) \<and> (if i = 0 then \<not> False else \<not> isVowel (word ! (i - 1))))"
    by (rule ext) simp
  then have "vowelRuns word = runsFrom isVowel False word"
    unfolding vowelRuns_def
    by (simp only: runStarts_runsFrom)
  then show ?thesis by (simp add: length_matchRuns toLowerCase_def runsFrom_map isVowelLower_toLowerUnit)
qed

text \<open>
  C7. For every word, \<open>countSyllables\<close> returns a positive integer, the number of
  maximal contiguous runs of vowel characters, and 1 when there is no such run; in
  particular it is 1 on \<^verbatim>\<open>"sky"\<close>, 3 on \<^verbatim>\<open>"banana"\<close> and 1 on
  \<^verbatim>\<open>"rhythm"\<close>. A word is a match of \<^verbatim>\<open>\w+\<close>, as the scorer passes it.
\<close>

theorem countSyllables_vowel_runs:
  "(list_all isWordChar word \<longrightarrow>
      0 < countSyllables word \<and>
      countSyllables word = (if vowelRuns word = 0 then 1 else vowelRuns word)) \<and>
   countSyllables (js ''sky'') = 1 \<and> countSyllables (js ''banana'') = 3 \<and>
   countSyllables (js ''rhythm'') = 1"
proof -
  have "countSyllables word =
      (if length (matchRuns isVowelLower (toLowerCase word)) = 0 then 1
       else length (matchRuns isVowelLower (toLowerCase word)))"
    by (simp add: countSyllables_def Let_def)
  then have "countSyllables word = (if vowelRuns word = 0 then 1 else vowelRuns word)"
    by (simp only: length_vowel_matches)
  moreover have "countSyllables (js ''sky'') = 1" "countSyllables (js ''banana'') = 3"
    "countSyllables (js ''rhythm'') = 1"
    by (simp_all add: js_def countSyllables_def toLowerCase_def toLowerUnit_def isVowelLower_def matchRuns.simps)
  ultimately show ?thesis by simp
qed

text \<open>The word \<^verbatim>\<open>"Bonjour"\<close> has two runs of vowels.\<close>

theorem countSyllables_vowel_runs_witness:
  "list_all isWordChar (js ''Bonjour'') \<and> vowelRuns (js ''Bonjour'') = 2 \<and>
   countSyllables (js ''Bonjour'') = 2"
  using countSyllables_vowel_runs [of "js ''Bonjour''"]
  by (simp add: js_def vowelRuns_def isWordChar_def isVowel_def isVowelLower_def upt_conv_Cons)

section \<open>Block sizes\<close>

lemma brownianLoop_shape:
  "minSize \<le> maxSize \<Longrightarrow>
   \<exists>rest. brownianLoop noise base minSize maxSize nBlocks i W sizes = sizes @ rest \<and>
     length rest = Suc nBlocks - i \<and> (\<forall>s\<in>set rest. minSize \<le> s \<and> s \<le> maxSize)"
proof (induction noise base minSize maxSize nBlocks i W sizes rule: brownianLoop.induct)
  case (1 noise base minSize maxSize nBlocks i W sizes)
  show ?case
  proof (cases "i \<le> nBlocks")
    case False
    then show ?thesis
      by (subst brownianLoop.simps) simp
  next
    case True
    define W' where "W' = W + noise (i - 2)"
    define r0 where "r0 = \<lfloor>real_of_int base - \<bar>W'\<bar>\<rfloor>"
    define r1 where "r1 = (if r0 < minSize then minSize else r0)"
    define r2 where "r2 = (if r1 > maxSize then maxSize else r1)"
    have bounds: "minSize \<le> r2 \<and> r2 \<le> maxSize"
      using \<open>minSize \<le> maxSize\<close> by (auto simp: r1_def r2_def)
    from 1(1) [OF True W'_def r0_def r1_def r2_def 1(2)]
    obtain rest where rest:
      "brownianLoop noise base minSize maxSize nBlocks (i + 1) W' (sizes @ [r2]) = (sizes @ [r2]) @ rest"
      "length rest = Suc nBlocks - (i + 1)" "\<forall>s\<in>set rest. minSize \<le> s \<and> s \<le> maxSize"
      by blast
    have "brownianLoop noise base minSize maxSize nBlocks i W sizes =
        brownianLoop noise base minSize maxSize nBlocks (i + 1) W' (sizes @ [r2])"
      using True
      by (subst brownianLoop.simps) (simp add: Let_def W'_def r0_def r1_def r2_def)
    with rest(1) have "brownianLoop noise base minSize maxSize nBlocks i W sizes = sizes @ (r2 # rest)"
      by simp
    moreover have "length (r2 # rest) = Suc nBlocks - i"
      using True rest(2) by simp
    moreover have "\<forall>s\<in>set (r2 # rest). minSize \<le> s \<and> s \<le> maxSize"
      using bounds rest(3) by simp
    ultimately show ?thesis by blast
  qed
qed

lemma ceil_half: "\<lceil>real n / 2\<rceil> = - ((- int n) div 2)"
  using ceiling_divide_eq_div [of "int n" 2, where ?'a = real] by simp

lemma nBlocksOf_div: "nBlocksOf n = (n + 1) div 2"
proof -
  have "- ((- int n) div 2) = (int n + 1) div 2"
    by presburger
  also have "\<dots> = int ((n + 1) div 2)"
    by (simp add: zdiv_int)
  finally show ?thesis
    by (simp only: nBlocksOf_def ceil_half nat_int)
qed

text \<open>
  C2, as the code has it. For every count \<open>n\<close> of syllable tokens and every noise
  sequence, the list of block sizes for \<open>nBlocks = ceil(n / 2)\<close> has length
  \<open>max 1 (ceil(n / 2))\<close>: the list starts with the base also when \<open>nBlocks\<close> is 0.
  Its first element is the base, unclamped, and every later element lies within
  \<open>[minSize, maxSize]\<close>, for \<open>minSize \<le> maxSize\<close> as with the defaults 4 and 12.
\<close>

theorem brownianBlockSizes_shape:
  assumes "minSize \<le> maxSize"
  shows "length (brownianBlockSizes noise (nBlocksOf n) base minSize maxSize) = max 1 (nBlocksOf n) \<and>
    hd (brownianBlockSizes noise (nBlocksOf n) base minSize maxSize) = base \<and>
    (\<forall>s\<in>set (tl (brownianBlockSizes noise (nBlocksOf n) base minSize maxSize)).
       minSize \<le> s \<and> s \<le> maxSize) \<and>
    nBlocksOf n = (n + 1) div 2"
proof -
  obtain rest where rest:
    "brownianBlockSizes noise (nBlocksOf n) base minSize maxSize = [base] @ rest"
    "length rest = Suc (nBlocksOf n) - 2" "\<forall>s\<in>set rest. minSize \<le> s \<and> s \<le> maxSize"
    unfolding brownianBlockSizes_def
    using brownianLoop_shape [OF assms, of noise base "nBlocksOf n" 2 0 "[base]"] by blast
  show ?thesis
    using rest by (auto simp: nBlocksOf_div)
qed

theorem brownianBlockSizes_shape_witness:
  "(4::int) \<le> 12 \<and> nBlocksOf 7 = 4 \<and> brownianBlockSizes noNoise (nBlocksOf 7) 21 4 12 = [21, 12, 12, 12]"
  using brownianBlockSizes_shape [of 4 12 noNoise 7 21]
  by (simp add: nBlocksOf_div brownianBlockSizes_def brownianLoop.simps noNoise_def)

text \<open>
  For no syllable token at all \<open>nBlocks\<close> is 0 and the list is \<open>[21]\<close>, of length 1,
  not 0.
\<close>

theorem brownianBlockSizes_length_counterexample:
  "nBlocksOf 0 = 0 \<and> length (brownianBlockSizes noNoise (nBlocksOf 0) 21 4 12) = 1"
  by (simp add: nBlocksOf_def brownianBlockSizes_def brownianLoop.simps)

section \<open>Unicode bold maps code point by code point\<close>

lemma fromCodePoint_bold:
  assumes "0x1D400 \<le> cp" "cp \<le> 0x1D7FF"
  shows "fromCodePoint cp = Some [0xD835, of_nat (0xDC00 + (cp - 0x1D400))]"
proof -
  define k where "k = cp - 0x1D400"
  have k: "cp = 0x1D400 + k" "k < 0x400"
    using assms by (simp_all add: k_def)
  have "cp - 0x10000 = k + 0x35 * 0x400"
    using k by simp
  then have "(cp - 0x10000) div 0x400 = 0x35" "(cp - 0x10000) mod 0x400 = k"
    using k(2) by (simp_all only: div_mult_self1 mod_mult_self1) simp_all
  moreover have "\<not> cp < 0x10000" "cp \<le> 0x10FFFF"
    using assms by simp_all
  ultimately show ?thesis
    unfolding fromCodePoint_def by (simp add: k_def)
qed


lemma boldCodePoint_cases:
  "boldCodePoint n = n \<or> (0x1D400 \<le> boldCodePoint n \<and> boldCodePoint n \<le> 0x1D7FF)"
  by (auto simp: boldCodePoint_def)

lemma boldChar_single: "boldChar [c] = Some (boldUnits c)"
proof (cases "boldCodePoint (unat c) = unat c")
  case True
  then show ?thesis
    by (auto simp: boldChar_def boldUnits_def boldCodePoint_def Let_def split: if_splits)
next
  case False
  then have range: "0x1D400 \<le> boldCodePoint (unat c)" "boldCodePoint (unat c) \<le> 0x1D7FF"
    using boldCodePoint_cases [of "unat c"] by auto
  have "boldChar [c] = fromCodePoint (boldCodePoint (unat c))"
    using False by (auto simp: boldChar_def boldCodePoint_def Let_def split: if_splits)
  then show ?thesis
    using False by (simp add: fromCodePoint_bold [OF range] boldUnits_def)
qed

lemma boldChar_pair:
  "isHighSurrogate c \<Longrightarrow> isLowSurrogate d \<Longrightarrow> boldChar [c, d] = Some [c, d]"
  by (simp add: boldChar_def Let_def)

lemma low_unit:
  assumes "k < 0x400"
  shows "unat (of_nat (0xDC00 + k) :: jschar) = 0xDC00 + k"
    and "isLowSurrogate (of_nat (0xDC00 + k))"
proof -
  show u: "unat (of_nat (0xDC00 + k) :: jschar) = 0xDC00 + k"
  proof -
    have "(0xDC00 + k) mod 2 ^ LENGTH(16) = 0xDC00 + k"
      using assms by simp
    then show ?thesis
      by (simp only: unat_of_nat)
  qed
  show "isLowSurrogate (of_nat (0xDC00 + k))"
    unfolding isLowSurrogate_def word_le_nat_alt u using assms by simp
qed

lemma high_D835: "isHighSurrogate 0xD835" "\<not> isLowSurrogate 0xD835"
  by (simp_all add: isHighSurrogate_def isLowSurrogate_def)

lemma boldUnits_shape:
  "(boldCodePoint (unat c) = unat c \<and> boldUnits c = [c]) \<or>
   (\<exists>l. boldUnits c = [0xD835, l] \<and> isLowSurrogate l \<and> codePointAt0 [0xD835, l] = boldCodePoint (unat c))"
proof (cases "boldCodePoint (unat c) = unat c")
  case True
  then show ?thesis by (simp add: boldUnits_def)
next
  case False
  define k where "k = boldCodePoint (unat c) - 0x1D400"
  have k: "k < 0x400" "boldCodePoint (unat c) = 0x1D400 + k"
    using False boldCodePoint_cases [of "unat c"] by (auto simp: k_def)
  define l :: jschar where "l = of_nat (0xDC00 + k)"
  have l: "unat l = 0xDC00 + k" "isLowSurrogate l"
    using low_unit [OF k(1)] by (simp_all only: l_def)
  have "codePointAt0 [0xD835, l] = 0x1D400 + k"
    using l high_D835 by simp
  moreover have "boldUnits c = [0xD835, l]"
    using False by (simp only: boldUnits_def l_def k_def if_False)
  ultimately show ?thesis
    using l(2) k(2) by simp
qed

lemma spread_single:
  "\<not> (isHighSurrogate c \<and> xs \<noteq> [] \<and> isLowSurrogate (hd xs)) \<Longrightarrow> spread (c # xs) = [c] # spread xs"
  by (cases xs) auto

lemma toUnicodeBold_Nil: "toUnicodeBold [] = Some []"
  by (simp add: toUnicodeBold_def)

lemma toUnicodeBold_single: "toUnicodeBold [c] = Some (boldUnits c)"
  by (simp add: toUnicodeBold_def boldChar_single)

lemma toUnicodeBold_pair:
  "isHighSurrogate c \<Longrightarrow> isLowSurrogate d \<Longrightarrow>
   toUnicodeBold (c # d # cs) = map_option (\<lambda>r. [c, d] @ r) (toUnicodeBold cs)"
  by (simp add: toUnicodeBold_def boldChar_pair option.map_comp comp_def split: option.splits)

lemma toUnicodeBold_unit:
  "\<not> (isHighSurrogate c \<and> isLowSurrogate d) \<Longrightarrow>
   toUnicodeBold (c # d # cs) = map_option (\<lambda>r. boldUnits c @ r) (toUnicodeBold (d # cs))"
  by (cases "isHighSurrogate c")
     (simp_all add: toUnicodeBold_def boldChar_single option.map_comp comp_def split: option.splits)

lemma codePoints_bold_units:
  assumes "\<not> (isHighSurrogate c \<and> xs \<noteq> [] \<and> isLowSurrogate (hd xs))"
  shows "codePoints (boldUnits c @ xs) = boldCodePoint (unat c) # codePoints xs"
  using boldUnits_shape [of c]
proof (elim disjE conjE exE)
  assume "boldCodePoint (unat c) = unat c" "boldUnits c = [c]"
  then show ?thesis
    using spread_single [OF assms] by (simp add: codePoints_def)
next
  fix l
  assume "boldUnits c = [0xD835, l]" "isLowSurrogate l"
    "codePointAt0 [0xD835, l] = boldCodePoint (unat c)"
  then show ?thesis
    using high_D835 by (simp add: codePoints_def)
qed

lemma hd_boldUnits: "boldUnits c \<noteq> [] \<and> (hd (boldUnits c) = c \<or> hd (boldUnits c) = 0xD835)"
  by (simp add: boldUnits_def)

lemma toUnicodeBold_codePoints_aux:
  "\<exists>out. toUnicodeBold s = Some out \<and> codePoints out = map boldCodePoint (codePoints s) \<and>
     (s \<noteq> [] \<longrightarrow> out \<noteq> [] \<and> (hd out = hd s \<or> hd out = 0xD835))"
proof (induction s rule: spread.induct)
  case 1
  show ?case by (simp add: toUnicodeBold_Nil codePoints_def)
next
  case (2 c)
  have "codePoints (boldUnits c @ []) = boldCodePoint (unat c) # codePoints []"
    by (rule codePoints_bold_units) simp
  then show ?case
    using hd_boldUnits [of c] by (simp add: toUnicodeBold_single codePoints_def)
next
  case (3 c d cs)
  show ?case
  proof (cases "isHighSurrogate c \<and> isLowSurrogate d")
    case True
    with 3(1) obtain out where out: "toUnicodeBold cs = Some out"
      "codePoints out = map boldCodePoint (codePoints cs)" by blast
    have "boldCodePoint (codePointAt0 [c, d]) = codePointAt0 [c, d]"
      using True by (simp add: boldCodePoint_def)
    then show ?thesis
      using True out by (simp add: toUnicodeBold_pair codePoints_def)
  next
    case False
    with 3(2) obtain out where out: "toUnicodeBold (d # cs) = Some out"
      "codePoints out = map boldCodePoint (codePoints (d # cs))"
      "out \<noteq> []" "hd out = d \<or> hd out = 0xD835" by auto
    have "\<not> (isHighSurrogate c \<and> out \<noteq> [] \<and> isLowSurrogate (hd out))"
      using False out(4) high_D835 by auto
    then have "codePoints (boldUnits c @ out) = boldCodePoint (unat c) # codePoints out"
      by (rule codePoints_bold_units)
    moreover have "codePoints (c # d # cs) = unat c # codePoints (d # cs)"
      using False by (cases "isHighSurrogate c") (simp_all add: codePoints_def)
    ultimately show ?thesis
      using False out(1,2) hd_boldUnits [of c]
      by (simp add: toUnicodeBold_unit)
  qed
qed

text \<open>
  C8. For every input string, \<open>toUnicodeBold\<close> maps each Latin capital letter, small
  letter and decimal digit to its mathematical-bold code point, by the fixed offset of
  its range, and passes every other character through unchanged; the call never throws.
  In particular \<^verbatim>\<open>toUnicodeBold("AB9")\<close> is the three mathematical-bold code points
  of \<open>A\<close>, \<open>B\<close> and \<open>9\<close>, each a surrogate pair.
\<close>

theorem toUnicodeBold_code_points:
  "map_option codePoints (toUnicodeBold s) = Some (map boldCodePoint (codePoints s)) \<and>
   toUnicodeBold (js ''AB9'') = Some [0xD835, 0xDC00, 0xD835, 0xDC01, 0xD835, 0xDFD7] \<and>
   map_option codePoints (toUnicodeBold (js ''AB9'')) = Some [0x1D400, 0x1D401, 0x1D7D7]"
proof -
  have "map_option codePoints (toUnicodeBold s) = Some (map boldCodePoint (codePoints s))" for s
    using toUnicodeBold_codePoints_aux [of s] by auto
  moreover have "toUnicodeBold (js ''AB9'') = Some [0xD835, 0xDC00, 0xD835, 0xDC01, 0xD835, 0xDFD7]"
    by (simp add: js_def toUnicodeBold_def boldChar_def fromCodePoint_def charClasses)
  moreover have "codePoints [0xD835, 0xDC00, 0xD835, 0xDC01, 0xD835, 0xDFD7] = [0x1D400, 0x1D401, 0x1D7D7]"
    by (simp add: codePoints_def charClasses)
  ultimately show ?thesis by simp
qed



text \<open>An input with a hyphen and a blank, which stay as they are.\<close>

theorem toUnicodeBold_code_points_witness:
  "map_option codePoints (toUnicodeBold (js ''a-Z 7'')) = Some [0x1D41A, 0x2D, 0x1D419, 0x20, 0x1D7D5]"
proof -
  have "map boldCodePoint (codePoints (js ''a-Z 7'')) = [0x1D41A, 0x2D, 0x1D419, 0x20, 0x1D7D5]"
    by (simp add: js_def codePoints_def boldCodePoint_def charClasses)
  then show ?thesis
    using toUnicodeBold_code_points [of "js ''a-Z 7''"] by (simp only:)
qed

section \<open>Which positions of a block are emphasized\<close>

text \<open>
  The weight is above 0.8 at the four positions from one before the centre to two after
  it. The bounds \<open>1 + x \<le> exp x\<close> decide every integer distance with a wide margin, so
  the rounding of the doubles does not change the outcome.
\<close>

lemma exp_above: "0 \<le> y \<Longrightarrow> y \<le> 19 / 100 \<Longrightarrow> exp (- y) > (4 / 5 :: real)"
  using exp_ge_add_one_self [of "- y"] by linarith

lemma exp_below:
  assumes "(13 / 50 :: real) \<le> y"
  shows "exp (- y) < 4 / 5"
proof -
  have "63 / 50 \<le> exp y"
    using exp_ge_add_one_self [of y] assms by linarith
  then have "inverse (exp y) \<le> inverse (63 / 50)"
    by (intro le_imp_inverse_le) simp_all
  then have "inverse (exp y) < 4 / 5"
    by simp
  then show ?thesis
    by (simp only: exp_minus)
qed

lemma emphasized_iff: "emphasized d \<longleftrightarrow> - 1 \<le> d \<and> d \<le> 2"
proof -
  consider "d \<le> - 2" | "d = - 1" | "d = 0" | "d = 1" | "d = 2" | "3 \<le> d"
    by linarith
  then show ?thesis
  proof cases
    case 1
    then have "2 * 2 \<le> (- d) * (- d)"
      by (intro mult_mono) simp_all
    then have "(4::int) \<le> d * d"
      by simp
    then have "real_of_int 4 \<le> real_of_int (d * d)"
      by (simp only: of_int_le_iff)
    then have "4 \<le> real_of_int d * real_of_int d"
      by simp
    then have "13 / 50 \<le> real_of_int d * real_of_int d / (2 * sigmaL * sigmaL)"
      by (simp add: sigmaL_def field_simps)
    from exp_below [OF this] show ?thesis
      using 1 by (simp add: emphasized_def gaussianAsym_def)
  next
    case 2
    have "exp (- (1 / (2 * sigmaL * sigmaL))) > 4 / 5"
      by (rule exp_above) (simp_all add: sigmaL_def)
    then show ?thesis
      using 2 by (simp add: emphasized_def gaussianAsym_def)
  next
    case 3
    then show ?thesis
      by (simp add: emphasized_def gaussianAsym_def)
  next
    case 4
    have "exp (- (1 / (2 * sigmaR * sigmaR))) > 4 / 5"
      by (rule exp_above) (simp_all add: sigmaR_def)
    then show ?thesis
      using 4 by (simp add: emphasized_def gaussianAsym_def)
  next
    case 5
    have "exp (- (4 / (2 * sigmaR * sigmaR))) > 4 / 5"
      by (rule exp_above) (simp_all add: sigmaR_def)
    then show ?thesis
      using 5 by (simp add: emphasized_def gaussianAsym_def)
  next
    case 6
    then have "3 * 3 \<le> d * d"
      by (intro mult_mono) simp_all
    then have "(9::int) \<le> d * d"
      by simp
    then have "real_of_int 9 \<le> real_of_int (d * d)"
      by (simp only: of_int_le_iff)
    then have "9 \<le> real_of_int d * real_of_int d"
      by simp
    then have "13 / 50 \<le> real_of_int d * real_of_int d / (2 * sigmaR * sigmaR)"
      by (simp add: sigmaR_def field_simps)
    from exp_below [OF this] show ?thesis
      using 6 by (simp add: emphasized_def gaussianAsym_def)
  qed
qed

section \<open>Slices\<close>

lemma sliceArr_take_drop:
  assumes "0 \<le> idx" "0 \<le> sz"
  shows "sliceArr xs idx (idx + sz) = take (nat sz) (drop (nat idx) xs)"
proof (cases "idx \<le> int (length xs)")
  case True
  have "take (nat (min (idx + sz) (int (length xs)) - idx)) (drop (nat idx) xs) =
      take (nat sz) (drop (nat idx) xs)"
  proof (cases "idx + sz \<le> int (length xs)")
    case True
    then show ?thesis by (simp add: min_def)
  next
    case False
    then have "length (drop (nat idx) xs) \<le> nat (int (length xs) - idx)"
      "length (drop (nat idx) xs) \<le> nat sz"
      using assms by auto
    with False show ?thesis
      by (simp add: min_def)
  qed
  then show ?thesis
    using True assms by (simp add: sliceArr_def Let_def min_def)
next
  case False
  then show ?thesis
    using assms by (simp add: sliceArr_def Let_def min_def)
qed


section \<open>Bisection of a sentence without a comma\<close>

lemma splitComma_no_comma: "comma \<notin> set s \<Longrightarrow> splitComma s = [s]"
proof -
  assume "comma \<notin> set s"
  then have "dropWhile (\<lambda>c. c \<noteq> comma) s = []"
    by (auto simp: dropWhile_eq_Nil_conv)
  then show ?thesis
    by (subst splitComma.simps) (simp only: list.case)
qed

lemma slice_halves:
  "sliceArr ws 0 (int (length ws) div 2) = take (length ws div 2) ws"
  "sliceFrom ws (int (length ws) div 2) = drop (length ws div 2) ws"
proof -
  have n: "nat (int (length ws) div 2) = length ws div 2"
    by (simp add: nat_div_distrib)
  show "sliceArr ws 0 (int (length ws) div 2) = take (length ws div 2) ws"
    using sliceArr_take_drop [of 0 "int (length ws) div 2" ws] by (simp add: n)
  have "sliceArr ws (int (length ws) div 2) (int (length ws) div 2 + (int (length ws) - int (length ws) div 2))
      = take (nat (int (length ws) - int (length ws) div 2)) (drop (nat (int (length ws) div 2)) ws)"
    by (rule sliceArr_take_drop) simp_all
  then show "sliceFrom ws (int (length ws) div 2) = drop (length ws div 2) ws"
    by (simp add: sliceFrom_def n nat_diff_distrib zdiv_int)
qed

lemma sentenceParts_no_comma:
  assumes "comma \<notin> set s"
  shows "sentenceParts s =
    [join space (take (length (splitRuns isSpaceChar s) div 2) (splitRuns isSpaceChar s)),
     join space (drop (length (splitRuns isSpaceChar s) div 2) (splitRuns isSpaceChar s))]"
  by (simp add: sentenceParts_def Let_def splitComma_no_comma [OF assms] slice_halves)

lemma trim_id: "isTrimmed s \<Longrightarrow> trim s = s"
proof -
  assume t: "isTrimmed s"
  then obtain c cs where s: "s = c # cs" by (cases s) (auto simp: isTrimmed_def)
  have 1: "dropWhile isSpaceChar s = s"
    using t by (simp add: s isTrimmed_def)
  obtain d ds where r: "rev s = d # ds"
    using s by (cases "rev s") simp_all
  then have "d = last s"
    using s by (metis hd_rev list.sel(1))
  then have 2: "dropWhile isSpaceChar (rev s) = rev s"
    using t by (simp only: r dropWhile.simps isTrimmed_def if_False)
  show ?thesis
    by (simp add: trim_def 1 2)
qed

lemma trim_trimmed:
  assumes "trim s \<noteq> []"
  shows "isTrimmed (trim s)"
proof -
  define u where "u = dropWhile isSpaceChar s"
  define v where "v = dropWhile isSpaceChar (rev u)"
  have t: "trim s = rev v"
    by (simp add: trim_def u_def v_def)
  have v: "v \<noteq> []"
    using assms t by simp
  then have "\<not> isSpaceChar (hd v)"
    unfolding v_def by (rule hd_dropWhile)
  then have last: "\<not> isSpaceChar (last (trim s))"
    using v by (simp add: t last_rev)
  have u: "u \<noteq> []"
    using v by (auto simp: v_def)
  then have hdu: "\<not> isSpaceChar (hd u)"
    unfolding u_def by (rule hd_dropWhile)
  have "rev u = takeWhile isSpaceChar (rev u) @ v"
    by (simp add: v_def)
  then have "last (rev u) = last v"
    using v by (metis last_appendR)
  then have "last v = hd u"
    using u by (simp add: last_rev)
  then have "\<not> isSpaceChar (hd (trim s))"
    using hdu v by (simp add: t hd_rev)
  with last assms show ?thesis
    by (simp add: isTrimmed_def)
qed

lemma splitRuns_words:
  "s \<noteq> [] \<Longrightarrow> \<not> P (hd s) \<Longrightarrow> \<not> P (last s) \<Longrightarrow>
   \<forall>w\<in>set (splitRuns P s). w \<noteq> [] \<and> (\<forall>c\<in>set w. \<not> P c)"
proof (induction P s rule: splitRuns.induct)
  case (1 P s)
  show ?case
  proof (cases "dropWhile (\<lambda>c. \<not> P c) s")
    case Nil
    then have "\<forall>c\<in>set s. \<not> P c"
      by (simp add: dropWhile_eq_Nil_conv)
    moreover have "splitRuns P s = [s]"
      by (subst splitRuns.simps) (simp only: Nil list.case)
    ultimately show ?thesis
      using "1.prems"(1) by simp
  next
    case (Cons c cs)
    define s' where "s' = dropWhile P cs"
    define w where "w = takeWhile (\<lambda>c. \<not> P c) s"
    have split: "splitRuns P s = w # splitRuns P s'"
      by (subst splitRuns.simps) (simp only: Cons list.case s'_def w_def)
    have Pc: "P c"
      using hd_dropWhile [of "\<lambda>c. \<not> P c" s] by (simp add: Cons)
    have first: "w \<noteq> []"
      using "1.prems"(1,2) by (cases s) (simp_all add: w_def)
    have wfree: "\<forall>c\<in>set w. \<not> P c"
      unfolding w_def by (auto dest: set_takeWhileD)
    have eq1: "s = w @ (c # cs)"
      using takeWhile_dropWhile_id [of "\<lambda>c. \<not> P c" s] by (simp only: Cons w_def)
    have eq2: "cs = takeWhile P cs @ s'"
      by (simp only: s'_def takeWhile_dropWhile_id)
    have ls: "last s = last (c # cs)"
    proof -
      have "last (w @ (c # cs)) = last (c # cs)"
        by (rule last_appendR) simp
      with arg_cong [where f = last, OF eq1] show ?thesis
        by (rule trans)
    qed
    have ne: "s' \<noteq> []"
    proof
      assume "s' = []"
      with eq2 have "cs = takeWhile P cs"
        by (simp only: append_Nil2)
      then have "\<forall>x\<in>set cs. P x"
        by (metis set_takeWhileD)
      with Pc have "\<forall>x\<in>set (c # cs). P x"
        by simp
      moreover have "last (c # cs) \<in> set (c # cs)"
        by (rule last_in_set) simp
      ultimately have "P (last s)"
        by (simp only: ls)
      with "1.prems"(3) show False by simp
    qed
    then have hd': "\<not> P (hd s')"
      unfolding s'_def by (rule hd_dropWhile)
    have "last (takeWhile P cs @ s') = last s'"
      using ne by (rule last_appendR)
    with arg_cong [where f = last, OF eq2] have "last cs = last s'"
      by (rule trans)
    moreover have "cs \<noteq> []"
      using ne by (auto simp: s'_def)
    ultimately have "last s = last s'"
      by (simp add: ls)
    with "1.prems"(3) have last': "\<not> P (last s')"
      by simp
    have "\<forall>w\<in>set (splitRuns P s'). w \<noteq> [] \<and> (\<forall>c\<in>set w. \<not> P c)"
      unfolding s'_def
      by (rule "1.IH" [OF Cons]) (use ne hd' last' in \<open>simp_all only: s'_def not_False_eq_True\<close>)
    then show ?thesis
      using first wfree by (simp add: split)
  qed
qed

lemma splitRuns_nonempty: "splitRuns P s \<noteq> []"
proof (cases "dropWhile (\<lambda>c. \<not> P c) s")
  case Nil
  then have "splitRuns P s = [s]"
    by (subst splitRuns.simps) (simp only: list.case)
  then show ?thesis by simp
next
  case (Cons c cs)
  then have "splitRuns P s = takeWhile (\<lambda>c. \<not> P c) s # splitRuns P (dropWhile P cs)"
    by (subst splitRuns.simps) (simp only: list.case)
  then show ?thesis by simp
qed

lemma splitRuns_single: "length (splitRuns P s) < 2 \<Longrightarrow> splitRuns P s = [s]"
proof (cases "dropWhile (\<lambda>c. \<not> P c) s")
  case Nil
  then show ?thesis
    by (subst splitRuns.simps) (simp only: list.case)
next
  case (Cons c cs)
  assume "length (splitRuns P s) < 2"
  moreover have "splitRuns P s = takeWhile (\<lambda>c. \<not> P c) s # splitRuns P (dropWhile P cs)"
    using Cons by (subst splitRuns.simps) (simp only: list.case)
  ultimately show ?thesis
    using splitRuns_nonempty [of P "dropWhile P cs"]
    by (cases "splitRuns P (dropWhile P cs)") simp_all
qed

lemma join_ends:
  "ws \<noteq> [] \<Longrightarrow> \<forall>w\<in>set ws. w \<noteq> [] \<Longrightarrow>
   join sep ws \<noteq> [] \<and> hd (join sep ws) = hd (hd ws) \<and> last (join sep ws) = last (last ws)"
proof (induction sep ws rule: join.induct)
  case (1 sep)
  then show ?case by simp
next
  case (2 sep x)
  then show ?case by simp
next
  case (3 sep x y ys)
  then have "join sep (y # ys) \<noteq> []" "last (join sep (y # ys)) = last (last (y # ys))"
    by simp_all
  with 3(3) show ?case by simp
qed

lemma join_trimmed:
  assumes "ws \<noteq> []" "\<forall>w\<in>set ws. w \<noteq> [] \<and> (\<forall>c\<in>set w. \<not> isSpaceChar c)"
  shows "isTrimmed (join space ws)"
proof -
  have "hd ws \<in> set ws" "last ws \<in> set ws"
    using assms(1) by simp_all
  then have "\<not> isSpaceChar (hd (hd ws))" "\<not> isSpaceChar (last (last ws))"
    using assms(2) by (metis hd_in_set, metis last_in_set)
  then show ?thesis
    using join_ends [of ws space] assms by (simp add: isTrimmed_def)
qed



lemma adjustSentence_out_of_band:
  assumes "trim sent \<noteq> []"
    "\<not> (lower \<le> fleschReadingEase (trim sent) \<and> fleschReadingEase (trim sent) \<le> upper)"
  shows "adjustSentence lower upper sent =
    filter (\<lambda>part. part \<noteq> []) (map trim (sentenceParts (trim sent)))"
  using assms by (auto simp: adjustSentence_def Let_def)

text \<open>
  C4, as the code has it. For every out-of-band sentence without a comma (\<open>trim sent\<close> is
  the sentence of the loop, \<open>ws\<close> its words, \<open>n\<close> their number), the two parts are the
  words before index \<open>n div 2\<close>, that index excluded, and the words from index \<open>n div 2\<close>
  on, each rejoined with single spaces. With two words or more both groups are non-empty
  and both are appended, unchanged by the trimming; a sentence of one word has an empty
  first group and only the sentence itself is appended.
\<close>

theorem adjustSentence_bisects:
  assumes "trim sent \<noteq> []" "comma \<notin> set (trim sent)"
    "\<not> (lower \<le> fleschReadingEase (trim sent) \<and> fleschReadingEase (trim sent) \<le> upper)"
    "ws = splitRuns isSpaceChar (trim sent)" "n = length ws"
  shows "sentenceParts (trim sent) = [join space (take (n div 2) ws), join space (drop (n div 2) ws)] \<and>
    (\<forall>w\<in>set ws. w \<noteq> [] \<and> (\<forall>c\<in>set w. \<not> isSpaceChar c)) \<and>
    (2 \<le> n \<longrightarrow>
       adjustSentence lower upper sent =
         [join space (take (n div 2) ws), join space (drop (n div 2) ws)] \<and>
       take (n div 2) ws \<noteq> [] \<and> drop (n div 2) ws \<noteq> []) \<and>
    (n < 2 \<longrightarrow> adjustSentence lower upper sent = [trim sent])"
proof -
  have parts: "sentenceParts (trim sent) =
      [join space (take (n div 2) ws), join space (drop (n div 2) ws)]"
    using sentenceParts_no_comma [OF assms(2)] by (simp only: assms(4,5))
  have trimmed: "isTrimmed (trim sent)"
    using assms(1) by (rule trim_trimmed)
  then have words: "\<forall>w\<in>set ws. w \<noteq> [] \<and> (\<forall>c\<in>set w. \<not> isSpaceChar c)"
    unfolding assms(4) isTrimmed_def by (intro splitRuns_words) simp_all
  have adj: "adjustSentence lower upper sent =
      filter (\<lambda>part. part \<noteq> [])
        [trim (join space (take (n div 2) ws)), trim (join space (drop (n div 2) ws))]"
    using adjustSentence_out_of_band [OF assms(1,3)] by (simp add: parts)
  have two: "2 \<le> n \<longrightarrow>
       adjustSentence lower upper sent =
         [join space (take (n div 2) ws), join space (drop (n div 2) ws)] \<and>
       take (n div 2) ws \<noteq> [] \<and> drop (n div 2) ws \<noteq> []"
  proof
    assume "2 \<le> n"
    then have "0 < n div 2" "n div 2 < n"
      by simp_all
    then have ne: "take (n div 2) ws \<noteq> []" "drop (n div 2) ws \<noteq> []"
      unfolding assms(5) by auto
    have "\<forall>w\<in>set (take (n div 2) ws). w \<noteq> [] \<and> (\<forall>c\<in>set w. \<not> isSpaceChar c)"
      using words by (auto dest: in_set_takeD)
    with ne(1) have t1: "isTrimmed (join space (take (n div 2) ws))"
      by (rule join_trimmed)
    have "\<forall>w\<in>set (drop (n div 2) ws). w \<noteq> [] \<and> (\<forall>c\<in>set w. \<not> isSpaceChar c)"
      using words by (auto dest: in_set_dropD)
    with ne(2) have t2: "isTrimmed (join space (drop (n div 2) ws))"
      by (rule join_trimmed)
    have "join space (take (n div 2) ws) \<noteq> []" "join space (drop (n div 2) ws) \<noteq> []"
      using t1 t2 by (simp_all add: isTrimmed_def)
    then have "adjustSentence lower upper sent =
         [join space (take (n div 2) ws), join space (drop (n div 2) ws)]"
      by (simp add: adj trim_id [OF t1] trim_id [OF t2])
    with ne show "adjustSentence lower upper sent =
         [join space (take (n div 2) ws), join space (drop (n div 2) ws)] \<and>
       take (n div 2) ws \<noteq> [] \<and> drop (n div 2) ws \<noteq> []"
      by (intro conjI)
  qed
  have one: "n < 2 \<longrightarrow> adjustSentence lower upper sent = [trim sent]"
  proof
    assume "n < 2"
    then have "length (splitRuns isSpaceChar (trim sent)) < 2"
      by (simp only: assms(4,5))
    then have ws: "ws = [trim sent]"
      unfolding assms(4) by (rule splitRuns_single)
    have "trim [] = []"
      by (simp add: trim_def)
    then show "adjustSentence lower upper sent = [trim sent]"
      using assms(1) by (simp add: adj ws assms(5) trim_id [OF trimmed])
  qed
  from parts words two one show ?thesis
    by (intro conjI)
qed

text \<open>Five words: the midpoint is 2, the groups are two words and three words.\<close>

theorem adjustSentence_bisects_witness:
  "trim (js '' a b c d e '') = js ''a b c d e'' \<and>
   comma \<notin> set (js ''a b c d e'') \<and>
   splitRuns isSpaceChar (js ''a b c d e'') = [js ''a'', js ''b'', js ''c'', js ''d'', js ''e''] \<and>
   fleschReadingEase (js ''a b c d e'') = 117.16 \<and>
   sentenceParts (js ''a b c d e'') = [js ''a b'', js ''c d e''] \<and>
   adjustSentence 74 82 (js '' a b c d e '') = [js ''a b'', js ''c d e'']"
proof -
  have t: "trim (js '' a b c d e '') = js ''a b c d e''"
    by (simp add: js_def trim_def charClasses)
  have ws: "splitRuns isSpaceChar (js ''a b c d e'') = [js ''a'', js ''b'', js ''c'', js ''d'', js ''e'']"
    by (simp add: js_def charClasses matcherSimps)
  have score: "fleschReadingEase (js ''a b c d e'') = 117.16"
    by (simp add: js_def scorerDefs charClasses matcherSimps)
  have cm: "comma \<notin> set (js ''a b c d e'')"
    by (simp add: js_def comma_def)
  have ne: "js ''a b c d e'' \<noteq> []"
    by (simp add: js_def)
  have ob: "\<not> (74 \<le> fleschReadingEase (js ''a b c d e'') \<and> fleschReadingEase (js ''a b c d e'') \<le> 82)"
    by (simp add: score)
  have groups: "join space (take (5 div 2) [js ''a'', js ''b'', js ''c'', js ''d'', js ''e'']) = js ''a b''"
    "join space (drop (5 div 2) [js ''a'', js ''b'', js ''c'', js ''d'', js ''e'']) = js ''c d e''"
    by (simp_all add: js_def space_def)
  have len: "length [js ''a'', js ''b'', js ''c'', js ''d'', js ''e''] = 5"
    by simp
  note th = adjustSentence_bisects [of "js '' a b c d e ''" 74 82, unfolded t, OF ne cm ob refl refl,
      unfolded ws len groups]
  from th have "sentenceParts (js ''a b c d e'') = [js ''a b'', js ''c d e'']"
    by (rule conjunct1)
  moreover from th have "adjustSentence 74 82 (js '' a b c d e '') = [js ''a b'', js ''c d e'']"
    by simp
  ultimately show ?thesis
    using t ws score cm by (intro conjI)
qed

text \<open>
  Three words: the midpoint is 1, so the first group is the word of index 0 alone; the
  word of index 1 opens the second group.
\<close>

theorem adjustSentence_midpoint_counterexample:
  "comma \<notin> set (js ''a b c'') \<and>
   \<not> (74 \<le> fleschReadingEase (js ''a b c'') \<and> fleschReadingEase (js ''a b c'') \<le> 82) \<and>
   splitRuns isSpaceChar (js ''a b c'') = [js ''a'', js ''b'', js ''c''] \<and>
   adjustSentence 74 82 (js ''a b c'') = [js ''a'', js ''b c''] \<and>
   adjustSentence 74 82 (js ''a b c'') \<noteq> [js ''a b'', js ''c'']"
  by (simp add: js_def adjustSentence_def sentenceParts_def sliceArr_def sliceFrom_def space_def
      scorerDefs charClasses matcherSimps)

section \<open>The emphasis loops\<close>

lemma markedFrom_refl: "markedFrom orig orig D"
  by (simp add: markedFrom_def)

lemma markedFrom_mono: "markedFrom orig cur D \<Longrightarrow> D \<subseteq> D' \<Longrightarrow> markedFrom orig cur D'"
  by (auto simp: markedFrom_def)

lemma markedFrom_update:
  assumes "markedFrom orig cur D" "j \<notin> D"
  shows "markedFrom orig (cur[j := wrapEmph (cur ! j)]) (insert j D)"
  unfolding markedFrom_def
proof (intro conjI allI impI)
  show "length (cur[j := wrapEmph (cur ! j)]) = length orig"
    using assms(1) by (simp add: markedFrom_def)
next
  fix i
  assume "i < length orig" "i \<notin> insert j D"
  then show "cur[j := wrapEmph (cur ! j)] ! i = orig ! i"
    using assms(1) by (simp add: markedFrom_def)
next
  fix i
  assume i: "i < length orig"
  show "cur[j := wrapEmph (cur ! j)] ! i = orig ! i \<or>
        cur[j := wrapEmph (cur ! j)] ! i = wrapEmph (orig ! i)"
  proof (cases "i = j")
    case True
    then have "cur ! j = orig ! j" "j < length cur"
      using assms i by (simp_all add: markedFrom_def)
    with True show ?thesis by simp
  next
    case False
    then show ?thesis
      using assms(1) i by (simp add: markedFrom_def)
  qed
qed

lemma fold_marked:
  assumes "markedFrom orig cur D" "distinct (map fst ps)" "fst ` set ps \<inter> D = {}"
  shows "markedFrom orig
           (fold (\<lambda>(tok_i, pos) toks. if Q pos then toks[tok_i := wrapEmph (toks ! tok_i)] else toks)
              ps cur)
           (D \<union> fst ` set ps)"
  using assms
proof (induction ps arbitrary: cur D)
  case Nil
  then show ?case by simp
next
  case (Cons p ps)
  obtain j pos where p: "p = (j, pos)" by (cases p)
  define cur' where "cur' = (if Q pos then cur[j := wrapEmph (cur ! j)] else cur)"
  have j: "j \<notin> D" "j \<notin> fst ` set ps"
    using Cons.prems p by auto
  have "markedFrom orig cur' (insert j D)"
    using markedFrom_update [OF Cons.prems(1) j(1)] markedFrom_mono [OF Cons.prems(1), of "insert j D"]
    by (auto simp: cur'_def)
  moreover have "distinct (map fst ps)" "fst ` set ps \<inter> insert j D = {}"
    using Cons.prems p j by auto
  ultimately have "markedFrom orig
      (fold (\<lambda>(tok_i, pos) toks. if Q pos then toks[tok_i := wrapEmph (toks ! tok_i)] else toks) ps cur')
      (insert j D \<union> fst ` set ps)"
    by (rule Cons.IH)
  then show ?case
    by (simp add: p cur'_def)
qed

lemma emphBlock_marked:
  assumes "markedFrom orig cur D" "distinct block" "set block \<inter> D = {}"
  shows "markedFrom orig (emphBlock cur block) (D \<union> set block)"
proof -
  have fst: "map fst (zip block [0..<length block]) = block"
    by (simp add: map_fst_zip)
  then have img: "fst ` set (zip block [0..<length block]) = set block"
    by (metis set_map)
  show ?thesis
    unfolding emphBlock_def Let_def
    using fold_marked [of orig cur D "zip block [0..<length block]"] assms
    by (simp only: fst img)
qed

lemma emphStep_take_drop:
  "0 \<le> idx \<Longrightarrow> 0 \<le> sz \<Longrightarrow>
   emphStep xs sz (idx, cur) = (idx + sz, emphBlock cur (take (nat sz) (drop (nat idx) xs)))"
  by (simp add: emphStep_def sliceArr_take_drop)

lemma fold_emphStep_marked:
  assumes "distinct xs" "\<forall>s\<in>set sizes. 0 \<le> s" "0 \<le> idx"
    "markedFrom orig cur (set (take (nat idx) xs))"
  shows "markedFrom orig (snd (fold (emphStep xs) sizes (idx, cur))) (set xs)"
  using assms(2-)
proof (induction sizes arbitrary: idx cur)
  case Nil
  then show ?case
    using markedFrom_mono [OF Nil(3) set_take_subset] by simp
next
  case (Cons sz sizes)
  define block where "block = take (nat sz) (drop (nat idx) xs)"
  have sz: "0 \<le> sz" using Cons.prems(1) by simp
  have "distinct block"
    using assms(1) by (simp add: block_def)
  moreover have "set block \<inter> set (take (nat idx) xs) = {}"
    using set_take_disj_set_drop_if_distinct [OF assms(1), of "nat idx" "nat idx"]
      set_take_subset [of "nat sz" "drop (nat idx) xs"]
    by (auto simp: block_def)
  ultimately have "markedFrom orig (emphBlock cur block) (set (take (nat idx) xs) \<union> set block)"
    using emphBlock_marked [OF Cons.prems(3)] by blast
  moreover have "set (take (nat idx) xs) \<union> set block = set (take (nat (idx + sz)) xs)"
    using sz Cons.prems(2) by (simp add: block_def nat_add_distrib take_add)
  ultimately have "markedFrom orig (emphBlock cur block) (set (take (nat (idx + sz)) xs))"
    by simp
  moreover have "\<forall>s\<in>set sizes. 0 \<le> s" "0 \<le> idx + sz"
    using Cons.prems sz by simp_all
  ultimately have "markedFrom orig (snd (fold (emphStep xs) sizes (idx + sz, emphBlock cur block))) (set xs)"
    using Cons.IH by blast
  then show ?case
    using sz Cons.prems(2) by (simp add: emphStep_take_drop block_def)
qed

lemma fold_emphStep_past_end:
  assumes "\<forall>s\<in>set sizes. 0 \<le> s" "int (length xs) \<le> idx"
  shows "snd (fold (emphStep xs) sizes (idx, toks)) = toks"
  using assms
proof (induction sizes arbitrary: idx)
  case Nil
  show ?case by simp
next
  case (Cons sz sizes)
  have "emphStep xs sz (idx, toks) = (idx + sz, toks)"
    using Cons.prems by (simp add: emphStep_take_drop emphBlock_def)
  moreover have "int (length xs) \<le> idx + sz" "\<forall>s\<in>set sizes. 0 \<le> s"
    using Cons.prems by simp_all
  ultimately show ?case
    using Cons.IH by simp
qed

lemma brownianBlockSizes_default:
  "\<exists>rest. brownianBlockSizes noise n 21 4 12 = 21 # rest \<and> (\<forall>s\<in>set rest. 4 \<le> s \<and> s \<le> 12)"
  unfolding brownianBlockSizes_def
  using brownianLoop_shape [of 4 12 noise 21 n 2 0 "[21]"] by auto

lemma distinct_syllIdxsOf: "distinct (syllIdxsOf tokens)"
  by (simp add: syllIdxsOf_def)

lemma syllIdxsOf_Syll: "i \<in> set (syllIdxsOf tokens) \<Longrightarrow> ttype (tokens ! i) = Syll"
  by (simp add: syllIdxsOf_def)

lemma emphasize_markedFrom: "markedFrom tokens (emphasize noise tokens) (set (syllIdxsOf tokens))"
proof -
  obtain rest where rest:
    "brownianBlockSizes noise (nBlocksOf (length (syllIdxsOf tokens))) 21 4 12 = 21 # rest"
    "\<forall>s\<in>set rest. 4 \<le> s \<and> s \<le> 12"
    using brownianBlockSizes_default by blast
  have "\<forall>s\<in>set (21 # rest). 0 \<le> s"
    using rest(2) by auto
  then have "markedFrom tokens
      (snd (fold (emphStep (syllIdxsOf tokens)) (21 # rest) (0, tokens))) (set (syllIdxsOf tokens))"
    by (intro fold_emphStep_marked distinct_syllIdxsOf markedFrom_refl) simp_all
  then show ?thesis
    by (simp only: emphasize_def Let_def rest(1))
qed

lemma emphasize_small:
  assumes "length (syllIdxsOf tokens) \<le> 21"
  shows "emphasize noise tokens = emphBlock tokens (syllIdxsOf tokens)"
proof -
  obtain rest where rest:
    "brownianBlockSizes noise (nBlocksOf (length (syllIdxsOf tokens))) 21 4 12 = 21 # rest"
    "\<forall>s\<in>set rest. 4 \<le> s \<and> s \<le> 12"
    using brownianBlockSizes_default by blast
  have nonneg: "\<forall>s\<in>set rest. 0 \<le> s"
    using rest(2) by auto
  have "emphStep (syllIdxsOf tokens) 21 (0, tokens) = (21, emphBlock tokens (syllIdxsOf tokens))"
    using assms emphStep_take_drop [of 0 21 "syllIdxsOf tokens" tokens] by simp
  moreover have "snd (fold (emphStep (syllIdxsOf tokens)) rest (21, emphBlock tokens (syllIdxsOf tokens)))
      = emphBlock tokens (syllIdxsOf tokens)"
    using nonneg assms by (intro fold_emphStep_past_end) simp_all
  ultimately have "snd (fold (emphStep (syllIdxsOf tokens)) (21 # rest) (0, tokens))
      = emphBlock tokens (syllIdxsOf tokens)"
    by simp
  then show ?thesis
    by (simp only: emphasize_def Let_def rest(1))
qed


section \<open>Evaluation of the pipeline on a text\<close>

lemmas pipelineDefs =
  processText_def adjustReadability_def adjustSentence_def sentenceParts_def splitSentences_def
  sliceArr_def sliceFrom_def space_def tokenizeToSyllables_def tokensOf_def isSepTok_def
  formatSyllables_def

lemma bonjour_adjusted:
  "adjustReadability (js ''Bonjour le monde.'') 74 82 = js ''Bonjour le monde.''"
  by (simp add: js_def pipelineDefs scorerDefs charClasses matcherSimps)

lemma bonjour_tokens:
  "tokenizeToSyllables (js ''Bonjour le monde.'') =
     [\<lparr>ttype = Syll, ttext = js ''Bonj''\<rparr>, \<lparr>ttype = Syll, ttext = js ''ou''\<rparr>,
      \<lparr>ttype = Sep, ttext = js '' ''\<rparr>, \<lparr>ttype = Syll, ttext = js ''le''\<rparr>,
      \<lparr>ttype = Sep, ttext = js '' ''\<rparr>, \<lparr>ttype = Syll, ttext = js ''mond''\<rparr>,
      \<lparr>ttype = Syll, ttext = js ''e''\<rparr>, \<lparr>ttype = Sep, ttext = js ''.''\<rparr>]"
  by (simp add: js_def pipelineDefs charClasses matcherSimps)

lemma bonjour_processed:
  "processText noNoise (js ''Bonjour le monde.'') = js ''Bonj**ou** **le** **mond****e**.''"
  unfolding processText_def Let_def bonjour_adjusted bonjour_tokens
  by (simp add: formatSyllables_def emphasize_def syllIdxsOf_def nBlocksOf_div
      brownianBlockSizes_def brownianLoop.simps noNoise_def emphStep_def emphBlock_def sliceArr_def
      emphasized_iff wrapEmph_def marker_def js_def upt_conv_Cons)


section \<open>No noise in the output of a short text\<close>

text \<open>
  C10. For every input text whose tokenization yields at most 21 syllable tokens, the
  output of \<open>processText\<close> is the same for any two noise sequences: the first block, of
  the fixed size 21, takes every syllable, and the later blocks are empty.
\<close>

theorem processText_noise_independent:
  "length (syllIdxsOf (tokenizeToSyllables (adjustReadability text 74 82))) \<le> 21 \<Longrightarrow>
   processText noise text = processText noise' text"
  by (simp add: processText_def formatSyllables_def emphasize_small)

text \<open>
  Five syllable tokens, hence three block sizes, two of them drawn from the noise: the
  sizes are \<open>[21, 12, 12]\<close> without noise and \<open>[21, 12, 10]\<close> with \<open>stepNoise\<close>.
\<close>

lemma sizes_of_five:
  "brownianBlockSizes noNoise (nBlocksOf 5) 21 4 12 = [21, 12, 12]"
  "brownianBlockSizes stepNoise (nBlocksOf 5) 21 4 12 = [21, 12, 10]"
  by (simp_all add: nBlocksOf_div brownianBlockSizes_def brownianLoop.simps noNoise_def stepNoise_def)

theorem processText_noise_independent_witness:
  "length (syllIdxsOf (tokenizeToSyllables (adjustReadability (js ''Bonjour le monde.'') 74 82))) = 5 \<and>
   brownianBlockSizes noNoise (nBlocksOf 5) 21 4 12 = [21, 12, 12] \<and>
   brownianBlockSizes stepNoise (nBlocksOf 5) 21 4 12 = [21, 12, 10] \<and>
   processText noNoise (js ''Bonjour le monde.'') = js ''Bonj**ou** **le** **mond****e**.'' \<and>
   processText stepNoise (js ''Bonjour le monde.'') = js ''Bonj**ou** **le** **mond****e**.''"
proof -
  have five: "length (syllIdxsOf (tokenizeToSyllables (adjustReadability (js ''Bonjour le monde.'') 74 82))) = 5"
    unfolding bonjour_adjusted bonjour_tokens by (simp add: syllIdxsOf_def upt_conv_Cons)
  then have "processText noNoise (js ''Bonjour le monde.'') = processText stepNoise (js ''Bonjour le monde.'')"
    by (intro processText_noise_independent) simp
  with five bonjour_processed sizes_of_five show ?thesis
    by (simp only: simp_thms)
qed

section \<open>Syllable tokens are made of word characters\<close>


lemma set_takeWhile_sub: "set (takeWhile P xs) \<subseteq> set xs"
  by (auto dest: set_takeWhileD)

lemma set_dropWhile_sub: "set (dropWhile P xs) \<subseteq> set xs"
  by (auto dest: set_dropWhileD)

lemma syllMatches_subset: "syl \<in> set (syllMatches s) \<Longrightarrow> set syl \<subseteq> set s"
proof (induction s arbitrary: syl rule: syllMatches.induct)
  case (1 s)
  define onset where "onset = takeWhile (\<lambda>c. \<not> isVowel c) s"
  define r1 where "r1 = dropWhile (\<lambda>c. \<not> isVowel c) s"
  define nucleus where "nucleus = takeWhile isVowel r1"
  define r2 where "r2 = dropWhile isVowel r1"
  define coda where "coda = takeWhile (\<lambda>c. \<not> isVowel c) r2"
  define r3 where "r3 = dropWhile (\<lambda>c. \<not> isVowel c) r2"
  note defs = onset_def r1_def nucleus_def r2_def coda_def r3_def
  have sub: "set onset \<subseteq> set s" "set r1 \<subseteq> set s" "set nucleus \<subseteq> set r1" "set r2 \<subseteq> set r1"
    "set coda \<subseteq> set r2" "set r3 \<subseteq> set r2"
    by (simp_all only: defs set_takeWhile_sub set_dropWhile_sub)
  have unfold: "syllMatches s =
      (if r1 = [] then []
       else if coda \<noteq> [] \<and> r3 \<noteq> [] then (onset @ nucleus @ coda) # syllMatches r3
       else (onset @ nucleus) # syllMatches r2)"
    by (subst syllMatches.simps) (simp only: Let_def defs)
  show ?case
  proof (cases "r1 = []")
    case True
    with 1(3) unfold show ?thesis by simp
  next
    case ne: False
    show ?thesis
    proof (cases "coda \<noteq> [] \<and> r3 \<noteq> []")
      case True
      from 1(3) unfold ne True
      consider "syl = onset @ nucleus @ coda" | "syl \<in> set (syllMatches r3)" by auto
      then show ?thesis
      proof cases
        case 1
        then show ?thesis using sub by auto
      next
        case 2
        then have "set syl \<subseteq> set r3"
          using "1.IH"(1) [OF onset_def r1_def ne nucleus_def r2_def coda_def r3_def True] by blast
        then show ?thesis using sub by blast
      qed
    next
      case False
      from 1(3) unfold ne False
      consider "syl = onset @ nucleus" | "syl \<in> set (syllMatches r2)" by auto
      then show ?thesis
      proof cases
        case 1
        then show ?thesis using sub by auto
      next
        case 2
        then have "set syl \<subseteq> set r2"
          using "1.IH"(2) [OF onset_def r1_def ne nucleus_def r2_def coda_def r3_def False] by blast
        then show ?thesis using sub by blast
      qed
    qed
  qed
qed


lemma matchAllRe_kinds:
  "tok \<in> set (matchAllRe s) \<Longrightarrow>
   tok \<noteq> [] \<and> (list_all isWordChar tok \<or> list_all isSpaceChar tok \<or>
     (\<not> isWordChar (hd tok) \<and> \<not> isSpaceChar (hd tok)))"
proof (induction s arbitrary: tok rule: matchAllRe.induct)
  case 1
  then show ?case by simp
next
  case (2 c cs)
  note mem = \<open>tok \<in> set (matchAllRe (c # cs))\<close>
  show ?case
  proof (cases "isWordChar c")
    case True
    have "matchAllRe (c # cs) =
        (c # takeWhile isWordChar cs) # matchAllRe (dropWhile isWordChar cs)"
      using True by (simp only: matchAllRe.simps if_True)
    with mem consider "tok = c # takeWhile isWordChar cs"
      | "tok \<in> set (matchAllRe (dropWhile isWordChar cs))"
      by (auto simp del: matchAllRe.simps)
    then show ?thesis
    proof cases
      case 1
      have "list_all isWordChar (takeWhile isWordChar cs)"
        by (auto simp: list_all_iff dest: set_takeWhileD)
      with 1 True show ?thesis by simp
    next
      case 2
      then show ?thesis using "2.IH"(1) [OF True] by blast
    qed
  next
    case nw: False
    show ?thesis
    proof (cases "isSpaceChar c")
      case True
      have "matchAllRe (c # cs) =
          (c # takeWhile isSpaceChar cs) # matchAllRe (dropWhile isSpaceChar cs)"
        using nw True by (simp only: matchAllRe.simps if_False if_True not_True_eq_False)
      with mem consider "tok = c # takeWhile isSpaceChar cs"
        | "tok \<in> set (matchAllRe (dropWhile isSpaceChar cs))"
        by (auto simp del: matchAllRe.simps)
      then show ?thesis
      proof cases
        case 1
        have "list_all isSpaceChar (takeWhile isSpaceChar cs)"
          by (auto simp: list_all_iff dest: set_takeWhileD)
        with 1 True show ?thesis by simp
      next
        case 2
        then show ?thesis using "2.IH"(4) [OF nw] True by blast
      qed
    next
      case ns: False
      have step: "matchAllRe (c # cs) =
          (case cs of [] \<Rightarrow> [[c]]
           | d # ds \<Rightarrow> if isHighSurrogate c \<and> isLowSurrogate d then [c, d] # matchAllRe ds
                       else [c] # matchAllRe cs)"
        using nw ns by (simp only: matchAllRe.simps if_False if_True not_False_eq_True)
      show ?thesis
      proof (cases cs)
        case Nil
        have "matchAllRe (c # cs) = [[c]]"
          unfolding step by (simp only: Nil list.case)
        with mem nw ns show ?thesis
          by (simp del: matchAllRe.simps)
      next
        case (Cons d ds)
        show ?thesis
        proof (cases "isHighSurrogate c \<and> isLowSurrogate d")
          case True
          have "matchAllRe (c # cs) = [c, d] # matchAllRe ds"
            unfolding step using True by (simp only: Cons list.case if_True simp_thms)
          with mem consider "tok = [c, d]" | "tok \<in> set (matchAllRe ds)"
            by (auto simp del: matchAllRe.simps)
          then show ?thesis
          proof cases
            case 1
            then show ?thesis using nw ns by simp
          next
            case 2
            then show ?thesis using "2.IH"(2) [OF nw ns Cons True] by blast
          qed
        next
          case False
          have "matchAllRe (c # cs) = [c] # matchAllRe cs"
            unfolding step using False by (simp only: Cons list.case if_False simp_thms)
          with mem consider "tok = [c]" | "tok \<in> set (matchAllRe cs)"
            by (auto simp del: matchAllRe.simps)
          then show ?thesis
          proof cases
            case 1
            then show ?thesis using nw ns by simp
          next
            case 2
            then show ?thesis using "2.IH"(3) [OF nw ns Cons False] by blast
          qed
        qed
      qed
    qed
  qed
qed

lemma tokensOf_Syll_word:
  assumes "tok \<in> set (matchAllRe s)" "t \<in> set (tokensOf tok)" "ttype t = Syll"
  shows "list_all isWordChar (ttext t)"
proof -
  have notSep: "\<not> isSepTok tok"
    using assms(2,3) by (auto simp: tokensOf_def split: if_splits)
  have "list_all isWordChar tok"
    using matchAllRe_kinds [OF assms(1)] notSep
    by (cases tok) (auto simp: isSepTok_def list_all_iff list_ex_iff)
  moreover have "set (ttext t) \<subseteq> set tok"
  proof (cases "syllMatches tok = []")
    case True
    then show ?thesis
      using assms(2) notSep by (simp add: tokensOf_def)
  next
    case False
    then obtain syl where "syl \<in> set (syllMatches tok)" "ttext t = syl"
      using assms(2) notSep by (auto simp: tokensOf_def)
    then show ?thesis
      using syllMatches_subset [of syl tok] by simp
  qed
  ultimately show ?thesis
    by (auto simp: list_all_iff)
qed

lemma tokenize_Syll_word:
  "t \<in> set (tokenizeToSyllables text) \<Longrightarrow> ttype t = Syll \<Longrightarrow> list_all isWordChar (ttext t)"
  by (auto simp: tokenizeToSyllables_def dest: tokensOf_Syll_word)

lemma marker_not_word: "list_all isWordChar s \<Longrightarrow> set s \<inter> set marker = {}"
  by (auto simp: list_all_iff marker_def js_def isWordChar_def)

section \<open>The token array after the emphasis\<close>

text \<open>
  The output of \<open>processText\<close> is the concatenation of the token texts of the final
  array, which has the tokens of the tokenizer in their order, each one either as it was
  or, for a syllable token only, wrapped once as a whole between two markers; the wrapped
  text holds no marker character.
\<close>

lemma processText_token_array:
  assumes "toks = tokenizeToSyllables (adjustReadability text 74 82)"
  shows "processText noise text = concat (map ttext (emphasize noise toks)) \<and>
    length (emphasize noise toks) = length toks \<and>
    (\<forall>i<length toks.
       emphasize noise toks ! i = toks ! i \<or>
       (ttype (toks ! i) = Syll \<and> set (ttext (toks ! i)) \<inter> set marker = {} \<and>
        emphasize noise toks ! i = wrapEmph (toks ! i)))"
proof -
  have m: "markedFrom toks (emphasize noise toks) (set (syllIdxsOf toks))"
    by (rule emphasize_markedFrom)
  have "emphasize noise toks ! i = toks ! i \<or>
       (ttype (toks ! i) = Syll \<and> set (ttext (toks ! i)) \<inter> set marker = {} \<and>
        emphasize noise toks ! i = wrapEmph (toks ! i))" if i: "i < length toks" for i
  proof (cases "i \<in> set (syllIdxsOf toks)")
    case True
    then have syll: "ttype (toks ! i) = Syll"
      by (rule syllIdxsOf_Syll)
    have "toks ! i \<in> set (tokenizeToSyllables (adjustReadability text 74 82))"
      using i assms by simp
    then have "set (ttext (toks ! i)) \<inter> set marker = {}"
      using syll assms by (intro marker_not_word tokenize_Syll_word) simp_all
    with syll m i show ?thesis
      by (auto simp: markedFrom_def)
  next
    case False
    with m i show ?thesis
      by (simp add: markedFrom_def)
  qed
  moreover have "length (emphasize noise toks) = length toks"
    using m by (simp add: markedFrom_def)
  ultimately show ?thesis
    by (simp add: processText_def formatSyllables_def assms)
qed


section \<open>Reading the marked spans of a string\<close>

lemma toHtml_example: "toHtml (js ''Hello **world**!'') = js ''Hello <strong>world</strong>!''"
  by (simp add: js_def toHtml.simps matchStrong_def star_def isLineTerminator_def)

lemma markedSpans_skip: "matchStrong (c # cs) = None \<Longrightarrow> markedSpans (c # cs) = markedSpans cs"
  by (simp add: markedSpans.simps)

lemma markedSpans_hit:
  "matchStrong (c # cs) = Some (g, r) \<Longrightarrow> markedSpans (c # cs) = g # markedSpans r"
  by (simp add: markedSpans.simps)

lemma matchStrong_no_star: "c \<noteq> star \<Longrightarrow> matchStrong (c # cs) = None"
  by (simp add: matchStrong_def split: list.split)

lemma markedSpans_plain: "star \<notin> set x \<Longrightarrow> markedSpans (x @ rest) = markedSpans rest"
proof (induction x)
  case Nil
  show ?case by simp
next
  case (Cons c x)
  then have "c \<noteq> star" "star \<notin> set x"
    by auto
  then show ?case
    using Cons.IH by (simp add: markedSpans_skip matchStrong_no_star)
qed

lemma lazyGroup_closes:
  "star \<notin> set x \<Longrightarrow> \<forall>c\<in>set x. \<not> isLineTerminator c \<Longrightarrow>
   lazyGroup (x @ star # star # rest) = Some (x, rest)"
proof (induction x)
  case Nil
  show ?case by simp
next
  case (Cons c x)
  then have c: "c \<noteq> star" "\<not> isLineTerminator c"
    and IH: "lazyGroup (x @ star # star # rest) = Some (x, rest)"
    by auto
  obtain d ds where d: "x @ star # star # rest = d # ds"
    by (cases "x @ star # star # rest") simp_all
  have "lazyGroup (c # d # ds) = map_option (\<lambda>(g, r). (c # g, r)) (lazyGroup (d # ds))"
    using c by simp
  then show ?case
    using IH by (simp add: d)
qed

lemma markedSpans_wrapped:
  assumes "star \<notin> set x" "\<forall>c\<in>set x. \<not> isLineTerminator c"
  shows "markedSpans (marker @ x @ marker @ rest) = x # markedSpans rest"
proof -
  have m: "marker = [star, star]"
    by (simp add: marker_def js_def star_def)
  have "matchStrong (star # star # x @ star # star # rest) = Some (x, rest)"
    using lazyGroup_closes [OF assms] by (simp add: matchStrong_def)
  then show ?thesis
    by (simp add: m markedSpans_hit)
qed

lemma markedSpans_concat:
  "\<forall>p\<in>set rs. star \<notin> set (snd p) \<and> (fst p \<longrightarrow> (\<forall>c\<in>set (snd p). \<not> isLineTerminator c)) \<Longrightarrow>
   markedSpans (concat (map (\<lambda>p. if fst p then marker @ snd p @ marker else snd p) rs)) =
   map snd (filter fst rs)"
proof (induction rs)
  case Nil
  show ?case by (simp add: markedSpans.simps)
next
  case (Cons p rs)
  then have IH: "markedSpans (concat (map (\<lambda>p. if fst p then marker @ snd p @ marker else snd p) rs)) =
      map snd (filter fst rs)"
    by simp
  show ?case
  proof (cases "fst p")
    case True
    then have "star \<notin> set (snd p)" "\<forall>c\<in>set (snd p). \<not> isLineTerminator c"
      using Cons.prems by simp_all
    then show ?thesis
      using True IH by (simp add: markedSpans_wrapped)
  next
    case False
    have "star \<notin> set (snd p)"
      using Cons.prems by simp
    then show ?thesis
      using False IH by (simp add: markedSpans_plain)
  qed
qed

section \<open>The pipeline adds no character but blanks and markers\<close>

lemma set_trim: "set (trim s) \<subseteq> set s"
proof -
  have "set (trim s) = set (dropWhile isSpaceChar (rev (dropWhile isSpaceChar s)))"
    by (simp only: trim_def set_rev)
  also have "\<dots> \<subseteq> set (rev (dropWhile isSpaceChar s))"
    by (rule set_dropWhile_sub)
  also have "\<dots> \<subseteq> set s"
    by (simp only: set_rev set_dropWhile_sub)
  finally show ?thesis .
qed

lemma splitRuns_sub: "p \<in> set (splitRuns P s) \<Longrightarrow> set p \<subseteq> set s"
proof (induction P s arbitrary: p rule: splitRuns.induct)
  case (1 P s)
  show ?case
  proof (cases "dropWhile (\<lambda>c. \<not> P c) s")
    case Nil
    have "splitRuns P s = [s]"
      by (subst splitRuns.simps) (simp only: Nil list.case)
    with "1.prems" show ?thesis by simp
  next
    case (Cons c cs)
    have split: "splitRuns P s = takeWhile (\<lambda>c. \<not> P c) s # splitRuns P (dropWhile P cs)"
      by (subst splitRuns.simps) (simp only: Cons list.case)
    have "set (c # cs) \<subseteq> set s"
      unfolding Cons [symmetric] by (rule set_dropWhile_sub)
    then have cs: "set (dropWhile P cs) \<subseteq> set s"
      using set_dropWhile_sub [of P cs] by auto
    from "1.prems" split
    consider "p = takeWhile (\<lambda>c. \<not> P c) s" | "p \<in> set (splitRuns P (dropWhile P cs))"
      by auto
    then show ?thesis
    proof cases
      case 1
      then show ?thesis by (simp only: set_takeWhile_sub)
    next
      case 2
      then have "set p \<subseteq> set (dropWhile P cs)"
        by (rule "1.IH" [OF Cons])
      with cs show ?thesis by (rule subset_trans [rotated])
    qed
  qed
qed

lemma splitComma_sub: "p \<in> set (splitComma s) \<Longrightarrow> set p \<subseteq> set s"
proof (induction s arbitrary: p rule: splitComma.induct)
  case (1 s)
  show ?case
  proof (cases "dropWhile (\<lambda>c. c \<noteq> comma) s")
    case Nil
    have "splitComma s = [s]"
      by (subst splitComma.simps) (simp only: Nil list.case)
    with "1.prems" show ?thesis by simp
  next
    case (Cons c cs)
    have split: "splitComma s = takeWhile (\<lambda>c. c \<noteq> comma) s # splitComma (dropWhile isSpaceChar cs)"
      by (subst splitComma.simps) (simp only: Cons list.case)
    have "set (c # cs) \<subseteq> set s"
      unfolding Cons [symmetric] by (rule set_dropWhile_sub)
    then have cs: "set (dropWhile isSpaceChar cs) \<subseteq> set s"
      using set_dropWhile_sub [of isSpaceChar cs] by auto
    from "1.prems" split
    consider "p = takeWhile (\<lambda>c. c \<noteq> comma) s" | "p \<in> set (splitComma (dropWhile isSpaceChar cs))"
      by auto
    then show ?thesis
    proof cases
      case 1
      then show ?thesis by (simp only: set_takeWhile_sub)
    next
      case 2
      then have "set p \<subseteq> set (dropWhile isSpaceChar cs)"
        by (rule "1.IH" [OF Cons])
      with cs show ?thesis by (rule subset_trans [rotated])
    qed
  qed
qed

lemma splitSentencesFrom_sub:
  "p \<in> set (splitSentencesFrom cur s) \<Longrightarrow> set p \<subseteq> set cur \<union> set s"
proof (induction cur s arbitrary: p rule: splitSentencesFrom.induct)
  case (1 cur)
  then show ?case by simp
next
  case (2 cur c cs)
  show ?case
  proof (cases "isSpaceChar c \<and> cur \<noteq> [] \<and> isTerminal (last cur)")
    case True
    then have "splitSentencesFrom cur (c # cs) =
        cur # splitSentencesFrom [] (dropWhile isSpaceChar cs)"
      by (simp only: splitSentencesFrom.simps if_True simp_thms)
    with "2.prems" consider "p = cur" | "p \<in> set (splitSentencesFrom [] (dropWhile isSpaceChar cs))"
      by (auto simp del: splitSentencesFrom.simps)
    then show ?thesis
    proof cases
      case 1
      then show ?thesis by auto
    next
      case 2
      then have "set p \<subseteq> set [] \<union> set (dropWhile isSpaceChar cs)"
        by (rule "2.IH"(1) [OF True])
      then show ?thesis
        using set_dropWhile_sub [of isSpaceChar cs] by auto
    qed
  next
    case False
    then have "splitSentencesFrom cur (c # cs) = splitSentencesFrom (cur @ [c]) cs"
      by (simp only: splitSentencesFrom.simps if_False simp_thms)
    with "2.prems" have "p \<in> set (splitSentencesFrom (cur @ [c]) cs)"
      by (simp del: splitSentencesFrom.simps)
    then have "set p \<subseteq> set (cur @ [c]) \<union> set cs"
      by (rule "2.IH"(2) [OF False])
    then show ?thesis by auto
  qed
qed

lemma join_sub: "set (join sep xs) \<subseteq> set sep \<union> (\<Union>x\<in>set xs. set x)"
  by (induction sep xs rule: join.induct) auto

lemma sliceArr_sub: "set (sliceArr xs a b) \<subseteq> set xs"
proof -
  have "set (take n (drop k xs)) \<subseteq> set xs" for n k
    using set_take_subset [of n "drop k xs"] set_drop_subset [of k xs] by (rule subset_trans)
  then show ?thesis
    by (simp only: sliceArr_def Let_def)
qed

lemma sentenceParts_sub: "p \<in> set (sentenceParts s) \<Longrightarrow> set p \<subseteq> set s \<union> set space"
proof (cases "length (splitComma s) \<le> 1")
  case True
  define ws where "ws = splitRuns isSpaceChar s"
  have words: "(\<Union>x\<in>set ws. set x) \<subseteq> set s"
    using splitRuns_sub [of _ isSpaceChar s] by (auto simp: ws_def)
  have parts: "sentenceParts s =
      [join space (sliceArr ws 0 (int (length ws) div 2)), join space (sliceFrom ws (int (length ws) div 2))]"
    using True by (simp add: sentenceParts_def Let_def ws_def)
  have grp: "set (join space g) \<subseteq> set s \<union> set space" if "set g \<subseteq> set ws" for g
  proof -
    have "(\<Union>x\<in>set g. set x) \<subseteq> (\<Union>x\<in>set ws. set x)"
      using that by auto
    with words join_sub [of space g] show ?thesis by blast
  qed
  assume "p \<in> set (sentenceParts s)"
  then consider "p = join space (sliceArr ws 0 (int (length ws) div 2))"
    | "p = join space (sliceFrom ws (int (length ws) div 2))"
    by (auto simp: parts)
  then show ?thesis
  proof cases
    case 1
    then show ?thesis using grp [OF sliceArr_sub] by simp
  next
    case 2
    then show ?thesis using grp [OF sliceArr_sub] by (simp add: sliceFrom_def)
  qed
next
  case False
  assume "p \<in> set (sentenceParts s)"
  with False have "p \<in> set (splitComma s)"
    by (simp add: sentenceParts_def Let_def)
  then show ?thesis
    using splitComma_sub by blast
qed

lemma adjustSentence_sub:
  assumes "p \<in> set (adjustSentence lower upper sent)"
  shows "set p \<subseteq> set sent \<union> set space"
proof -
  from assms consider "p = trim sent"
    | q where "q \<in> set (sentenceParts (trim sent))" "p = trim q"
    by (auto simp: adjustSentence_def Let_def split: if_splits)
  then show ?thesis
  proof cases
    case 1
    then show ?thesis using set_trim [of sent] by auto
  next
    case 2
    then have "set q \<subseteq> set (trim sent) \<union> set space"
      using sentenceParts_sub by blast
    then show ?thesis
      using 2(2) set_trim [of sent] set_trim [of q] by blast
  qed
qed

lemma adjustReadability_sub: "set (adjustReadability text lower upper) \<subseteq> set text \<union> set space"
proof -
  define ps where "ps = concat (map (adjustSentence lower upper) (splitSentences text))"
  have "set p \<subseteq> set text \<union> set space" if "p \<in> set ps" for p
  proof -
    from that obtain sent where sent: "sent \<in> set (splitSentences text)"
      "p \<in> set (adjustSentence lower upper sent)"
      by (auto simp: ps_def)
    then have "set sent \<subseteq> set text"
      using splitSentencesFrom_sub [of sent "[]" "text"] by (simp add: splitSentences_def)
    with adjustSentence_sub [OF sent(2)] show ?thesis by blast
  qed
  then have "(\<Union>x\<in>set ps. set x) \<subseteq> set text \<union> set space"
    by blast
  then have "set (join space ps) \<subseteq> set text \<union> set space"
    using join_sub [of space ps] by blast
  then show ?thesis
    by (auto simp: adjustReadability_def Let_def ps_def)
qed

lemma concat_matchAllRe: "concat (matchAllRe s) = s"
proof (induction s rule: matchAllRe.induct)
  case 1
  show ?case by simp
next
  case (2 c cs)
  show ?case
  proof (cases "isWordChar c")
    case True
    have "matchAllRe (c # cs) =
        (c # takeWhile isWordChar cs) # matchAllRe (dropWhile isWordChar cs)"
      using True by (simp only: matchAllRe.simps if_True)
    then show ?thesis
      using "2.IH"(1) [OF True] by (simp del: matchAllRe.simps)
  next
    case nw: False
    show ?thesis
    proof (cases "isSpaceChar c")
      case True
      have "matchAllRe (c # cs) =
          (c # takeWhile isSpaceChar cs) # matchAllRe (dropWhile isSpaceChar cs)"
        using nw True by (simp only: matchAllRe.simps if_False if_True not_True_eq_False)
      then show ?thesis
        using "2.IH"(4) [OF nw] True by (simp del: matchAllRe.simps)
    next
      case ns: False
      have step: "matchAllRe (c # cs) =
          (case cs of [] \<Rightarrow> [[c]]
           | d # ds \<Rightarrow> if isHighSurrogate c \<and> isLowSurrogate d then [c, d] # matchAllRe ds
                       else [c] # matchAllRe cs)"
        using nw ns by (simp only: matchAllRe.simps if_False if_True not_False_eq_True)
      show ?thesis
      proof (cases cs)
        case Nil
        have "matchAllRe (c # cs) = [[c]]"
          unfolding step by (simp only: Nil list.case)
        then show ?thesis
          by (simp add: Nil del: matchAllRe.simps)
      next
        case (Cons d ds)
        show ?thesis
        proof (cases "isHighSurrogate c \<and> isLowSurrogate d")
          case True
          have "matchAllRe (c # cs) = [c, d] # matchAllRe ds"
            unfolding step using True by (simp only: Cons list.case if_True simp_thms)
          then show ?thesis
            using "2.IH"(2) [OF nw ns Cons True] by (simp add: Cons del: matchAllRe.simps)
        next
          case False
          have "matchAllRe (c # cs) = [c] # matchAllRe cs"
            unfolding step using False by (simp only: Cons list.case if_False simp_thms)
          then show ?thesis
            using "2.IH"(3) [OF nw ns Cons False] by (simp del: matchAllRe.simps)
        qed
      qed
    qed
  qed
qed

lemma tokensOf_sub: "t \<in> set (tokensOf tok) \<Longrightarrow> set (ttext t) \<subseteq> set tok"
proof -
  assume t: "t \<in> set (tokensOf tok)"
  show ?thesis
  proof (cases "\<not> isSepTok tok \<and> syllMatches tok \<noteq> []")
    case True
    with t obtain syl where "syl \<in> set (syllMatches tok)" "ttext t = syl"
      by (auto simp: tokensOf_def)
    then show ?thesis
      using syllMatches_subset [of syl tok] by simp
  next
    case False
    with t have "ttext t = tok"
      by (auto simp: tokensOf_def split: if_splits)
    then show ?thesis by simp
  qed
qed

lemma tokenize_sub: "t \<in> set (tokenizeToSyllables s) \<Longrightarrow> set (ttext t) \<subseteq> set s"
proof -
  assume "t \<in> set (tokenizeToSyllables s)"
  then obtain tok where tok: "tok \<in> set (matchAllRe s)" "t \<in> set (tokensOf tok)"
    by (auto simp: tokenizeToSyllables_def)
  have "set tok \<subseteq> set (concat (matchAllRe s))"
    using tok(1) by auto
  then have "set tok \<subseteq> set s"
    by (simp only: concat_matchAllRe)
  with tokensOf_sub [OF tok(2)] show ?thesis by blast
qed

lemma word_not_line_terminator: "isWordChar c \<Longrightarrow> \<not> isLineTerminator c"
proof
  assume w: "isWordChar c" and "isLineTerminator c"
  then consider "c = 0x0A" | "c = 0x0D" | "c = 0x2028" | "c = 0x2029"
    unfolding isLineTerminator_def by blast
  then show False
  proof cases
    case 1
    with w show False by (simp add: isWordChar_def)
  next
    case 2
    with w show False by (simp add: isWordChar_def)
  next
    case 3
    with w show False by (simp add: isWordChar_def)
  next
    case 4
    with w show False by (simp add: isWordChar_def)
  qed
qed

lemma star_not_space: "star \<notin> set space"
  by (simp add: space_def js_def star_def)

lemma tokens_star_free:
  assumes "star \<notin> set text" "t \<in> set (tokenizeToSyllables (adjustReadability text lower upper))"
  shows "star \<notin> set (ttext t)"
proof -
  have "set (ttext t) \<subseteq> set (adjustReadability text lower upper)"
    using assms(2) by (rule tokenize_sub)
  also have "\<dots> \<subseteq> set text \<union> set space"
    by (rule adjustReadability_sub)
  finally show ?thesis
    using assms(1) star_not_space by blast
qed

section \<open>The marked spans of the output\<close>

lemma spans_of_marked_array:
  assumes len: "length out = length toks"
    and each: "\<forall>i<length toks. out ! i = toks ! i \<or> out ! i = wrapEmph (toks ! i)"
    and free: "\<forall>i<length toks. star \<notin> set (ttext (toks ! i))"
    and line: "\<forall>i<length toks. out ! i \<noteq> toks ! i \<longrightarrow>
        (\<forall>c\<in>set (ttext (toks ! i)). \<not> isLineTerminator c)"
  shows "markedSpans (concat (map ttext out)) =
    map (\<lambda>i. ttext (toks ! i)) (filter (\<lambda>i. out ! i \<noteq> toks ! i) [0..<length toks])"
proof -
  define rs where "rs = map (\<lambda>i. (out ! i \<noteq> toks ! i, ttext (toks ! i))) [0..<length toks]"
  have "map ttext out = map ttext (map (\<lambda>i. out ! i) [0..<length out])"
    by (simp only: map_nth)
  also have "\<dots> = map (\<lambda>i. ttext (out ! i)) [0..<length toks]"
    by (simp add: len)
  also have "\<dots> = map (\<lambda>i. if out ! i \<noteq> toks ! i then marker @ ttext (toks ! i) @ marker
      else ttext (toks ! i)) [0..<length toks]"
  proof (rule map_cong [OF refl])
    fix i
    assume "i \<in> set [0..<length toks]"
    then have "out ! i = toks ! i \<or> out ! i = wrapEmph (toks ! i)"
      using each by simp
    then show "ttext (out ! i) =
        (if out ! i \<noteq> toks ! i then marker @ ttext (toks ! i) @ marker else ttext (toks ! i))"
      by (auto simp: wrapEmph_def)
  qed
  also have "\<dots> = map (\<lambda>p. if fst p then marker @ snd p @ marker else snd p) rs"
    by (simp add: rs_def comp_def)
  finally have "markedSpans (concat (map ttext out)) =
      markedSpans (concat (map (\<lambda>p. if fst p then marker @ snd p @ marker else snd p) rs))"
    by (simp only:)
  also have "\<dots> = map snd (filter fst rs)"
  proof (rule markedSpans_concat, rule ballI)
    fix p
    assume "p \<in> set rs"
    then obtain i where "i < length toks" "p = (out ! i \<noteq> toks ! i, ttext (toks ! i))"
      by (auto simp: rs_def)
    then show "star \<notin> set (snd p) \<and> (fst p \<longrightarrow> (\<forall>c\<in>set (snd p). \<not> isLineTerminator c))"
      using free line by simp
  qed
  also have "\<dots> = map (\<lambda>i. ttext (toks ! i)) (filter (\<lambda>i. out ! i \<noteq> toks ! i) [0..<length toks])"
    by (simp add: rs_def filter_map comp_def)
  finally show ?thesis .
qed

text \<open>
  C5, as the code has it. For every input text and every noise sequence, each token of
  the output is as the tokenizer made it or, for a syllable token only, wrapped once as a
  whole between two markers. For every input text without an asterisk, the marked spans
  of the output of \<open>processText\<close>, as \<^verbatim>\<open>toHtml\<close> reads them, are in order
  exactly the texts of the wrapped syllable tokens: no span is inside another and none
  cuts a token or runs over two.
\<close>

theorem processText_marked_spans:
  assumes "toks = tokenizeToSyllables (adjustReadability text 74 82)"
  shows "processText noise text = concat (map ttext (emphasize noise toks)) \<and>
    length (emphasize noise toks) = length toks \<and>
    (\<forall>i<length toks.
       emphasize noise toks ! i = toks ! i \<or>
       (ttype (toks ! i) = Syll \<and> set (ttext (toks ! i)) \<inter> set marker = {} \<and>
        emphasize noise toks ! i = wrapEmph (toks ! i))) \<and>
    (star \<notin> set text \<longrightarrow>
       markedSpans (processText noise text) =
         map (\<lambda>i. ttext (toks ! i))
           (filter (\<lambda>i. emphasize noise toks ! i \<noteq> toks ! i) [0..<length toks]))"
proof -
  note array = processText_token_array [OF assms, of noise]
  have out: "processText noise text = concat (map ttext (emphasize noise toks))"
    using array by (rule conjunct1)
  have len: "length (emphasize noise toks) = length toks"
    using array by (rule conjunct1 [OF conjunct2])
  have each: "\<forall>i<length toks.
       emphasize noise toks ! i = toks ! i \<or>
       (ttype (toks ! i) = Syll \<and> set (ttext (toks ! i)) \<inter> set marker = {} \<and>
        emphasize noise toks ! i = wrapEmph (toks ! i))"
    using array by (rule conjunct2 [OF conjunct2])
  have spans: "markedSpans (processText noise text) =
         map (\<lambda>i. ttext (toks ! i))
           (filter (\<lambda>i. emphasize noise toks ! i \<noteq> toks ! i) [0..<length toks])"
    if star: "star \<notin> set text"
  proof -
    have "\<forall>i<length toks. emphasize noise toks ! i = toks ! i \<or>
        emphasize noise toks ! i = wrapEmph (toks ! i)"
    proof (intro allI impI)
      fix i
      assume "i < length toks"
      with each have "emphasize noise toks ! i = toks ! i \<or>
         (ttype (toks ! i) = Syll \<and> set (ttext (toks ! i)) \<inter> set marker = {} \<and>
          emphasize noise toks ! i = wrapEmph (toks ! i))"
        by simp
      then show "emphasize noise toks ! i = toks ! i \<or>
          emphasize noise toks ! i = wrapEmph (toks ! i)"
        by (elim disjE conjE) (rule disjI1, assumption, rule disjI2, assumption)
    qed
    moreover have "\<forall>i<length toks. star \<notin> set (ttext (toks ! i))"
    proof (intro allI impI)
      fix i
      assume "i < length toks"
      then have "toks ! i \<in> set (tokenizeToSyllables (adjustReadability text 74 82))"
        by (simp add: assms)
      with star show "star \<notin> set (ttext (toks ! i))"
        by (rule tokens_star_free)
    qed
    moreover have "\<forall>i<length toks. emphasize noise toks ! i \<noteq> toks ! i \<longrightarrow>
        (\<forall>c\<in>set (ttext (toks ! i)). \<not> isLineTerminator c)"
    proof (intro allI impI ballI)
      fix i c
      assume i: "i < length toks" and ne: "emphasize noise toks ! i \<noteq> toks ! i"
        and c: "c \<in> set (ttext (toks ! i))"
      from each i have "emphasize noise toks ! i = toks ! i \<or>
         (ttype (toks ! i) = Syll \<and> set (ttext (toks ! i)) \<inter> set marker = {} \<and>
          emphasize noise toks ! i = wrapEmph (toks ! i))"
        by simp
      with ne have "ttype (toks ! i) = Syll"
        by (elim disjE conjE) (erule notE, assumption+)
      moreover have "toks ! i \<in> set (tokenizeToSyllables (adjustReadability text 74 82))"
        using i by (simp add: assms)
      ultimately have "list_all isWordChar (ttext (toks ! i))"
        by (intro tokenize_Syll_word)
      with c have "isWordChar c"
        by (simp add: list_all_iff)
      then show "\<not> isLineTerminator c"
        by (rule word_not_line_terminator)
    qed
    ultimately have "markedSpans (concat (map ttext (emphasize noise toks))) =
        map (\<lambda>i. ttext (toks ! i))
          (filter (\<lambda>i. emphasize noise toks ! i \<noteq> toks ! i) [0..<length toks])"
      using len by (intro spans_of_marked_array)
    then show ?thesis
      by (simp only: out)
  qed
  from out len each spans show ?thesis
    by (intro conjI impI)
qed

text \<open>
  A text that the adjuster keeps. Its six syllable tokens form one block with centre 3;
  the tokens at the positions 2 to 5 are wrapped, and they are the four spans.
\<close>

lemmas emphasisDefs =
  emphasize_def syllIdxsOf_def nBlocksOf_div brownianBlockSizes_def brownianLoop.simps
  noNoise_def emphStep_def emphBlock_def sliceArr_def emphasized_iff wrapEmph_def marker_def

lemmas spanDefs =
  markedSpans.simps matchStrong_def star_def isLineTerminator_def

lemma happy_adjusted:
  "adjustReadability (js ''Happy people read well.'') 74 82 = js ''Happy people read well.''"
  by (simp add: adjustReadability_def score_happy)

lemma happy_tokens:
  "tokenizeToSyllables (js ''Happy people read well.'') =
     [\<lparr>ttype = Syll, ttext = js ''Happ''\<rparr>, \<lparr>ttype = Syll, ttext = js ''y''\<rparr>,
      \<lparr>ttype = Sep, ttext = js '' ''\<rparr>, \<lparr>ttype = Syll, ttext = js ''peopl''\<rparr>,
      \<lparr>ttype = Syll, ttext = js ''e''\<rparr>, \<lparr>ttype = Sep, ttext = js '' ''\<rparr>,
      \<lparr>ttype = Syll, ttext = js ''rea''\<rparr>, \<lparr>ttype = Sep, ttext = js '' ''\<rparr>,
      \<lparr>ttype = Syll, ttext = js ''we''\<rparr>, \<lparr>ttype = Sep, ttext = js ''.''\<rparr>]"
  by (simp add: js_def pipelineDefs charClasses matcherSimps)

lemma happy_emphasized:
  "emphasize noNoise (tokenizeToSyllables (js ''Happy people read well.'')) =
     [\<lparr>ttype = Syll, ttext = js ''Happ''\<rparr>, \<lparr>ttype = Syll, ttext = js ''y''\<rparr>,
      \<lparr>ttype = Sep, ttext = js '' ''\<rparr>, \<lparr>ttype = Syll, ttext = js ''**peopl**''\<rparr>,
      \<lparr>ttype = Syll, ttext = js ''**e**''\<rparr>, \<lparr>ttype = Sep, ttext = js '' ''\<rparr>,
      \<lparr>ttype = Syll, ttext = js ''**rea**''\<rparr>, \<lparr>ttype = Sep, ttext = js '' ''\<rparr>,
      \<lparr>ttype = Syll, ttext = js ''**we**''\<rparr>, \<lparr>ttype = Sep, ttext = js ''.''\<rparr>]"
  unfolding happy_tokens
  by (simp add: emphasisDefs js_def upt_conv_Cons)

theorem processText_marked_spans_witness:
  "star \<notin> set (js ''Happy people read well.'') \<and>
   map ttext (tokenizeToSyllables (adjustReadability (js ''Happy people read well.'') 74 82)) =
     [js ''Happ'', js ''y'', js '' '', js ''peopl'', js ''e'', js '' '', js ''rea'', js '' '',
      js ''we'', js ''.''] \<and>
   processText noNoise (js ''Happy people read well.'') = js ''Happy **peopl****e** **rea** **we**.'' \<and>
   markedSpans (processText noNoise (js ''Happy people read well.'')) =
     [js ''peopl'', js ''e'', js ''rea'', js ''we'']"
proof -
  note th = processText_marked_spans [OF refl, of noNoise "js ''Happy people read well.''",
      unfolded happy_adjusted happy_emphasized]
  have free: "star \<notin> set (js ''Happy people read well.'')"
    by (simp add: js_def star_def)
  have out: "processText noNoise (js ''Happy people read well.'') =
      js ''Happy **peopl****e** **rea** **we**.''"
    using th by (simp add: js_def)
  have "markedSpans (processText noNoise (js ''Happy people read well.'')) =
      map (\<lambda>i. ttext (tokenizeToSyllables (js ''Happy people read well.'') ! i))
        (filter (\<lambda>i. [\<lparr>ttype = Syll, ttext = js ''Happ''\<rparr>, \<lparr>ttype = Syll, ttext = js ''y''\<rparr>,
      \<lparr>ttype = Sep, ttext = js '' ''\<rparr>, \<lparr>ttype = Syll, ttext = js ''**peopl**''\<rparr>,
      \<lparr>ttype = Syll, ttext = js ''**e**''\<rparr>, \<lparr>ttype = Sep, ttext = js '' ''\<rparr>,
      \<lparr>ttype = Syll, ttext = js ''**rea**''\<rparr>, \<lparr>ttype = Sep, ttext = js '' ''\<rparr>,
      \<lparr>ttype = Syll, ttext = js ''**we**''\<rparr>, \<lparr>ttype = Sep, ttext = js ''.''\<rparr>] ! i \<noteq>
            tokenizeToSyllables (js ''Happy people read well.'') ! i)
          [0..<length (tokenizeToSyllables (js ''Happy people read well.''))])"
    using th free by (elim conjE) (erule mp)
  then have spans: "markedSpans (processText noNoise (js ''Happy people read well.'')) =
      [js ''peopl'', js ''e'', js ''rea'', js ''we'']"
    by (simp only: happy_tokens) (simp add: upt_conv_Cons js_def)
  have "map ttext (tokenizeToSyllables (js ''Happy people read well.'')) =
     [js ''Happ'', js ''y'', js '' '', js ''peopl'', js ''e'', js '' '', js ''rea'', js '' '',
      js ''we'', js ''.'']"
    by (simp add: happy_tokens)
  with free out spans show ?thesis
    by (simp only: happy_adjusted simp_thms)
qed


text \<open>
  An asterisk of the input is a separator token and goes to the output as it is. In
  \<^verbatim>\<open>"a*b"\<close> both syllables are wrapped, the output is \<^verbatim>\<open>"**a*****b**"\<close>, and its
  second span is \<^verbatim>\<open>"*b"\<close>, which is the text of no token.
\<close>

lemma star_adjusted: "adjustReadability (js ''a*b'') 74 82 = js ''a*b''"
  by (simp add: js_def pipelineDefs scorerDefs charClasses matcherSimps)

lemma star_tokens:
  "tokenizeToSyllables (js ''a*b'') =
     [\<lparr>ttype = Syll, ttext = js ''a''\<rparr>, \<lparr>ttype = Sep, ttext = js ''*''\<rparr>,
      \<lparr>ttype = Syll, ttext = js ''b''\<rparr>]"
  by (simp add: js_def pipelineDefs charClasses matcherSimps)

lemma star_processed: "processText noNoise (js ''a*b'') = js ''**a*****b**''"
  unfolding processText_def Let_def star_adjusted star_tokens
  by (simp add: formatSyllables_def emphasisDefs js_def upt_conv_Cons)

theorem processText_asterisk_counterexample:
  "map ttext (tokenizeToSyllables (adjustReadability (js ''a*b'') 74 82)) =
     [js ''a'', js ''*'', js ''b''] \<and>
   processText noNoise (js ''a*b'') = js ''**a*****b**'' \<and>
   markedSpans (processText noNoise (js ''a*b'')) = [js ''a'', js ''*b''] \<and>
   js ''*b'' \<notin> set (map ttext (tokenizeToSyllables (adjustReadability (js ''a*b'') 74 82)))"
proof -
  have "markedSpans (js ''**a*****b**'') = [js ''a'', js ''*b'']"
    by (simp add: js_def spanDefs)
  moreover have "js ''*b'' \<notin> set [js ''a'', js ''*'', js ''b'']"
    by (simp add: js_def)
  ultimately show ?thesis
    by (simp add: star_adjusted star_tokens star_processed)
qed

end
